theory Spec2Isabelle
  imports Main "HOL-Library.Word" "HOL-Library.Char_ord" "HOL-Library.List_Lexorder"
    "HOL-Library.AList"
begin

unbundle bit_operations_syntax

section \<open>Data model\<close>

text \<open>
  The flattener of \<^verbatim>\<open>processors/mrfutils.py\<close> works on the event stream of a streaming
  JSON tokenizer (ijson). Python values that come out of JSON are modelled by \<open>json\<close>.
  A Python \<^verbatim>\<open>str\<close> is a \<open>string\<close> (code points below 256), a Python \<^verbatim>\<open>int\<close> is an
  \<open>int\<close>. A Python \<^verbatim>\<open>float\<close> is carried by its \<^verbatim>\<open>repr\<close>: the program never computes
  with floats, it only prints them (\<^verbatim>\<open>str\<close>, \<^verbatim>\<open>json.dumps\<close>), and both print the repr.
  A \<^verbatim>\<open>dict\<close> is an association list in insertion order; \<^verbatim>\<open>d[k] = v\<close> is
  \<open>AList.update k v d\<close>, which replaces the entry of \<open>k\<close> in place or adds one at the end.
\<close>

datatype scalar = SNull | SBool bool | SInt int | SFloat string | SStr string

datatype json = Sc scalar | Arr "json list" | Obj "(string \<times> json) list"

type_synonym dict = "(string \<times> json) list"

text \<open>
  The exceptions of the program. \<open>TypeError\<close> stands for the run-time type errors of
  Python on ill-typed JSON (\<^verbatim>\<open>TypeError\<close> and \<^verbatim>\<open>AttributeError\<close>); \<open>ParseError\<close> is
  what the tokenizer raises on malformed or truncated JSON; \<open>HashEmpty\<close> is the
  \<^verbatim>\<open>Exception("Hashed dictionary can't be empty")\<close> of \<^verbatim>\<open>dicthasher\<close>. \<open>Unmodelled\<close> is
  no exception of Python: it marks the few places where the model does not say what
  Python does (the \<^verbatim>\<open>repr\<close> of a list or dict, \<^verbatim>\<open>sorted\<close> on a list that is neither of
  strings nor of integers).
\<close>

datatype error =
    InvalidMRF | StopIteration | RuntimeError | TypeError | KeyError | IndexError
  | ValueError | ParseError | IOError | HashEmpty | Unmodelled

text \<open>The events of \<^verbatim>\<open>ijson.parse\<close>: triples \<^verbatim>\<open>(prefix, event, value)\<close>.\<close>

datatype ev_kind =
    StartMap | EndMap | StartArray | EndArray | MapKey | String | Number | Boolean | Null

type_synonym event = "string \<times> ev_kind \<times> scalar"

text \<open>
  A parser is a Python generator: reading it either yields the next event, raises, or
  finds it exhausted. The list holds what each successive \<^verbatim>\<open>next\<close> does: \<open>Inr t\<close> yields
  \<open>t\<close>, \<open>Inl e\<close> raises \<open>e\<close>; at \<open>[]\<close> the generator is exhausted. Every function that
  reads a parser returns what is left of it.
\<close>

type_synonym parser = "(error + event) list"

section \<open>The stream navigator\<close>

text \<open>
  \<^verbatim>\<open>value == to_value\<close> for a \<^verbatim>\<open>to_value\<close> that is a \<^verbatim>\<open>str\<close> or \<^verbatim>\<open>None\<close>.
\<close>

definition value_eq :: "scalar \<Rightarrow> string option \<Rightarrow> bool" where
  "value_eq v to_value = (case to_value of None \<Rightarrow> v = SNull | Some s \<Rightarrow> v = SStr s)"

text \<open>The three \<^verbatim>\<open>for ... else: raise StopIteration\<close> loops of \<^verbatim>\<open>ffwd\<close>.\<close>

fun ffwd_loop1 :: "parser \<Rightarrow> string option \<Rightarrow> ev_kind option \<Rightarrow> error + parser" where
  "ffwd_loop1 [] to_prefix to_event = Inl StopIteration"
| "ffwd_loop1 (Inl e # rest) to_prefix to_event = Inl e"
| "ffwd_loop1 (Inr (prefix, event, _) # rest) to_prefix to_event =
     (if Some prefix = to_prefix \<and> Some event = to_event then Inr rest
      else ffwd_loop1 rest to_prefix to_event)"

fun ffwd_loop2 :: "parser \<Rightarrow> ev_kind option \<Rightarrow> string option \<Rightarrow> error + parser" where
  "ffwd_loop2 [] to_event to_value = Inl StopIteration"
| "ffwd_loop2 (Inl e # rest) to_event to_value = Inl e"
| "ffwd_loop2 (Inr (_, event, v) # rest) to_event to_value =
     (if Some event = to_event \<and> value_eq v to_value then Inr rest
      else ffwd_loop2 rest to_event to_value)"

fun ffwd_loop3 :: "parser \<Rightarrow> string option \<Rightarrow> string option \<Rightarrow> error + parser" where
  "ffwd_loop3 [] to_prefix to_value = Inl StopIteration"
| "ffwd_loop3 (Inl e # rest) to_prefix to_value = Inl e"
| "ffwd_loop3 (Inr (prefix, _, v) # rest) to_prefix to_value =
     (if Some prefix = to_prefix \<and> value_eq v to_value then Inr rest
      else ffwd_loop3 rest to_prefix to_value)"

text \<open>
  \<^verbatim>\<open>ffwd\<close>: three \<^verbatim>\<open>if\<close> statements in sequence (not \<^verbatim>\<open>elif\<close>), each running its loop on
  what the one before left. \<open>None\<close> is the default \<^verbatim>\<open>None\<close> of an argument.
\<close>

definition ffwd ::
  "parser \<Rightarrow> string option \<Rightarrow> ev_kind option \<Rightarrow> string option \<Rightarrow> error + parser" where
  "ffwd parser to_prefix to_event to_value =
     (case (if to_value = None then ffwd_loop1 parser to_prefix to_event else Inr parser) of
        Inl e \<Rightarrow> Inl e
      | Inr p1 \<Rightarrow>
          (case (if to_prefix = None then ffwd_loop2 p1 to_event to_value else Inr p1) of
             Inl e \<Rightarrow> Inl e
           | Inr p2 \<Rightarrow>
               (if to_event = None then ffwd_loop3 p2 to_prefix to_value else Inr p2)))"

text \<open>
  What the specification says of \<^verbatim>\<open>ffwd\<close>, in its words: a triple matches a partial
  pattern when each specified component agrees; the stream is advanced up to and
  including the first matching triple, and the end of the stream before that is
  \<open>StopIteration\<close>. (An exception of the tokenizer on the way is passed on.)
\<close>

definition matches :: "string option \<Rightarrow> ev_kind option \<Rightarrow> string option \<Rightarrow> event \<Rightarrow> bool" where
  "matches to_prefix to_event to_value t =
     (case t of (prefix, event, v) \<Rightarrow>
        (case to_prefix of None \<Rightarrow> True | Some p \<Rightarrow> prefix = p) \<and>
        (case to_event of None \<Rightarrow> True | Some e \<Rightarrow> event = e) \<and>
        (case to_value of None \<Rightarrow> True | Some s \<Rightarrow> v = SStr s))"

text \<open>The number of components a pattern leaves unspecified.\<close>

definition wildcards :: "string option \<Rightarrow> ev_kind option \<Rightarrow> string option \<Rightarrow> nat" where
  "wildcards to_prefix to_event to_value =
     (if to_prefix = None then 1 else 0) + (if to_event = None then 1 else 0)
       + (if to_value = None then 1 else 0)"

fun ffwd_spec ::
  "parser \<Rightarrow> string option \<Rightarrow> ev_kind option \<Rightarrow> string option \<Rightarrow> error + parser" where
  "ffwd_spec [] to_prefix to_event to_value = Inl StopIteration"
| "ffwd_spec (Inl e # rest) to_prefix to_event to_value = Inl e"
| "ffwd_spec (Inr t # rest) to_prefix to_event to_value =
     (if matches to_prefix to_event to_value t then Inr rest
      else ffwd_spec rest to_prefix to_event to_value)"

section \<open>The object builder\<close>

text \<open>
  \<^verbatim>\<open>ijson.ObjectBuilder\<close> keeps \<^verbatim>\<open>value\<close> (unset at first), \<^verbatim>\<open>key\<close> (unset at first) and
  \<^verbatim>\<open>containers\<close>, a stack of closures: \<^verbatim>\<open>initial_set\<close> at the bottom, which assigns
  \<^verbatim>\<open>value\<close>, and above it one closure for every container still open, \<^verbatim>\<open>array.append\<close> of
  an open list or the \<^verbatim>\<open>setter\<close> of an open dict, which does
  \<^verbatim>\<open>mappable[self.key] = value\<close>. The lists and dicts are shared objects: a container is
  stored in its parent when it is opened and filled in place afterwards.

  In the model an open container is a \<open>frame\<close>: its contents so far and, when its
  parent is a dict, the key it was stored under (\<open>self.key\<close> when it was opened). The
  parent of a frame is the next frame of \<open>frames\<close> (innermost first); the outermost
  frame is the object \<^verbatim>\<open>value\<close> was assigned. A frame is written into its parent by
  \<open>store\<close> when it is read or closed, which gives what the shared object holds in the
  source. \<open>detached\<close> counts the closures on top of the stack whose containers are no
  longer reachable from \<^verbatim>\<open>value\<close> (after \<^verbatim>\<open>builder.value.pop()\<close> of
  \<^verbatim>\<open>skip_item_by_code\<close> removed an open item): what they are given is never seen again.
  \<open>initial\<close> says that \<^verbatim>\<open>initial_set\<close> is still on the stack.
\<close>

datatype frame = OpenArr "json list" "string option" | OpenMap dict "string option"

fun frame_json :: "frame \<Rightarrow> json" where
  "frame_json (OpenArr xs slot) = Arr xs"
| "frame_json (OpenMap kvs slot) = Obj kvs"

fun frame_slot :: "frame \<Rightarrow> string option" where
  "frame_slot (OpenArr xs slot) = slot"
| "frame_slot (OpenMap kvs slot) = slot"

record builder =
  bvalue :: "json option"
  frames :: "frame list"
  detached :: nat
  initial :: bool
  bkey :: "string option"

definition ObjectBuilder :: builder where
  "ObjectBuilder = \<lparr>bvalue = None, frames = [], detached = 0, initial = True, bkey = None\<rparr>"

text \<open>
  A child written into its parent: appended to a list, stored under its key in a dict.
  (A frame below a dict always has a key: the setter raised otherwise when it was
  opened, see \<open>call_top\<close>.)
\<close>

fun store :: "json \<Rightarrow> string option \<Rightarrow> frame \<Rightarrow> frame" where
  "store v slot (OpenArr xs s) = OpenArr (xs @ [v]) s"
| "store v (Some k) (OpenMap kvs s) = OpenMap (AList.update k v kvs) s"
| "store v None (OpenMap kvs s) = OpenMap kvs s"

fun plug :: "frame list \<Rightarrow> json option" where
  "plug [] = None"
| "plug [f] = Some (frame_json f)"
| "plug (f # p # fs) = plug (store (frame_json f) (frame_slot f) p # fs)"

text \<open>\<^verbatim>\<open>builder.value\<close>; \<open>None\<close> when the attribute is not set.\<close>

definition builder_value :: "builder \<Rightarrow> json option" where
  "builder_value b = (case plug (frames b) of Some v \<Rightarrow> Some v | None \<Rightarrow> bvalue b)"

text \<open>
  \<^verbatim>\<open>self.containers[-1](x)\<close> for a scalar \<open>x\<close>: \<^verbatim>\<open>IndexError\<close> on an empty stack; the
  setter of a dict raises when no \<^verbatim>\<open>map_key\<close> has set \<^verbatim>\<open>self.key\<close> yet.
\<close>

definition call_top :: "builder \<Rightarrow> json \<Rightarrow> error + builder" where
  "call_top b x =
     (if detached b > 0 then Inr b
      else case frames b of
        OpenArr xs s # fs \<Rightarrow> Inr (b\<lparr>frames := OpenArr (xs @ [x]) s # fs\<rparr>)
      | OpenMap kvs s # fs \<Rightarrow>
          (case bkey b of
             None \<Rightarrow> Inl TypeError
           | Some k \<Rightarrow> Inr (b\<lparr>frames := OpenMap (AList.update k x kvs) s # fs\<rparr>))
      | [] \<Rightarrow> if initial b then Inr (b\<lparr>bvalue := Some x\<rparr>) else Inl IndexError)"

text \<open>
  \<^verbatim>\<open>self.containers[-1](c); self.containers.append(...)\<close> for a new empty container
  \<open>c\<close>: the same checks as \<open>call_top\<close>, then the container is open on top.
\<close>

definition open_container :: "builder \<Rightarrow> (string option \<Rightarrow> frame) \<Rightarrow> error + builder" where
  "open_container b new =
     (if detached b > 0 then Inr (b\<lparr>detached := detached b + 1\<rparr>)
      else case frames b of
        OpenArr xs s # fs \<Rightarrow> Inr (b\<lparr>frames := new None # frames b\<rparr>)
      | OpenMap kvs s # fs \<Rightarrow>
          (case bkey b of
             None \<Rightarrow> Inl TypeError
           | Some k \<Rightarrow> Inr (b\<lparr>frames := new (Some k) # frames b\<rparr>))
      | [] \<Rightarrow> if initial b then Inr (b\<lparr>frames := [new None]\<rparr>) else Inl IndexError)"

text \<open>\<^verbatim>\<open>self.containers.pop()\<close>.\<close>

definition pop_container :: "builder \<Rightarrow> error + builder" where
  "pop_container b =
     (if detached b > 0 then Inr (b\<lparr>detached := detached b - 1\<rparr>)
      else case frames b of
        [f] \<Rightarrow> Inr (b\<lparr>frames := [], bvalue := Some (frame_json f)\<rparr>)
      | f # p # fs \<Rightarrow> Inr (b\<lparr>frames := store (frame_json f) (frame_slot f) p # fs\<rparr>)
      | [] \<Rightarrow> if initial b then Inr (b\<lparr>initial := False\<rparr>) else Inl IndexError)"

text \<open>
  \<^verbatim>\<open>ObjectBuilder.event(event, value)\<close>. The value of a \<^verbatim>\<open>map_key\<close> event is a
  \<^verbatim>\<open>str\<close> (the keys of \<open>dict\<close> are strings; the tokenizer gives no other).
\<close>

fun builder_event :: "builder \<Rightarrow> ev_kind \<Rightarrow> scalar \<Rightarrow> error + builder" where
  "builder_event b MapKey v =
     (case v of SStr k \<Rightarrow> Inr (b\<lparr>bkey := Some k\<rparr>) | _ \<Rightarrow> Inl TypeError)"
| "builder_event b StartMap v = open_container b (OpenMap [])"
| "builder_event b StartArray v = open_container b (OpenArr [])"
| "builder_event b EndArray v = pop_container b"
| "builder_event b EndMap v = pop_container b"
| "builder_event b event v = call_top b (Sc v)"

section \<open>The plan\<close>

text \<open>\<^verbatim>\<open>value in ('provider_references', 'in_network')\<close>.\<close>

definition stops_plan :: "scalar \<Rightarrow> bool" where
  "stops_plan v = (v = SStr ''provider_references'' \<or> v = SStr ''in_network'')"

text \<open>
  The loop of \<^verbatim>\<open>get_plan\<close>, with its builder. \<^verbatim>\<open>return builder.value\<close> raises when the
  attribute was never set. The result is the plan and what is left of the parser.
\<close>

fun get_plan_loop :: "builder \<Rightarrow> parser \<Rightarrow> error + (json \<times> parser)" where
  "get_plan_loop b [] = Inl InvalidMRF"
| "get_plan_loop b (Inl e # rest) = Inl e"
| "get_plan_loop b (Inr (prefix, event, v) # rest) =
     (case builder_event b event v of
        Inl e \<Rightarrow> Inl e
      | Inr b' \<Rightarrow>
          if stops_plan v then
            (case builder_value b' of None \<Rightarrow> Inl TypeError | Some plan \<Rightarrow> Inr (plan, rest))
          else get_plan_loop b' rest)"

definition get_plan :: "parser \<Rightarrow> error + (json \<times> parser)" where
  "get_plan parser = get_plan_loop ObjectBuilder parser"

text \<open>The builder after a list of events: \<^verbatim>\<open>builder.event\<close> on each in turn.\<close>

fun feed :: "builder \<Rightarrow> event list \<Rightarrow> error + builder" where
  "feed b [] = Inr b"
| "feed b ((prefix, event, v) # evs) =
     (case builder_event b event v of Inl e \<Rightarrow> Inl e | Inr b' \<Rightarrow> feed b' evs)"

section \<open>The input source\<close>

text \<open>
  \<^verbatim>\<open>urlparse\<close> is the standard library's: the model starts from its result, of which
  \<^verbatim>\<open>JSONOpen\<close> reads the scheme and the path.
\<close>

record parsed_url =
  url_scheme :: string
  url_path :: string

text \<open>\<^verbatim>\<open>s.split(sep)\<close> for a one-character separator.\<close>

fun split_on :: "char \<Rightarrow> string \<Rightarrow> string list" where
  "split_on sep [] = [[]]"
| "split_on sep (c # cs) =
     (if c = sep then [] # split_on sep cs
      else (case split_on sep cs of [] \<Rightarrow> [[c]] | w # ws \<Rightarrow> (c # w) # ws))"

text \<open>
  \<^verbatim>\<open>Path(p).name\<close> of a POSIX path: the last component, empty and \<^verbatim>\<open>.\<close> components
  dropped; \<^verbatim>\<open>''\<close> when there is none.
\<close>

definition path_name :: "string \<Rightarrow> string" where
  "path_name p =
     (case filter (\<lambda>c. c \<noteq> [] \<and> c \<noteq> ''.'') (split_on CHR ''/'' p) of
        [] \<Rightarrow> []
      | c # cs \<Rightarrow> last (c # cs))"

text \<open>
  \<^verbatim>\<open>Path(p).suffixes\<close> (pathlib of Python 3.11): none when the name ends with a dot;
  else the name without its leading dots is split at the dots, and every part but the
  first is a suffix.
\<close>

definition suffixes :: "string \<Rightarrow> string list" where
  "suffixes name =
     (if name \<noteq> [] \<and> last name = CHR ''.'' then []
      else map (\<lambda>s. CHR ''.'' # s)
             (tl (split_on CHR ''.'' (dropWhile (\<lambda>c. c = CHR ''.'') name))))"

text \<open>\<^verbatim>\<open>''.join(Path(parsed_url.path).suffixes)\<close>.\<close>

definition combined_suffix :: "string \<Rightarrow> string" where
  "combined_suffix p = concat (suffixes (path_name p))"

text \<open>\<^verbatim>\<open>str.lower\<close> on a code point below 256, and \<^verbatim>\<open>str.endswith\<close>.\<close>

definition py_lower_char :: "char \<Rightarrow> char" where
  "py_lower_char c =
     (let n = of_char c :: nat in
      if (65 \<le> n \<and> n \<le> 90) \<or> (192 \<le> n \<and> n \<le> 222 \<and> n \<noteq> 215)
      then char_of (n + 32) else c)"

definition py_lower :: "string \<Rightarrow> string" where
  "py_lower s = map py_lower_char s"

definition endswith :: "string \<Rightarrow> string \<Rightarrow> bool" where
  "endswith s suf = (length suf \<le> length s \<and> drop (length s - length suf) s = suf)"

record jsonopen =
  jo_filename :: string
  jo_suffix :: string
  jo_is_remote :: bool

text \<open>
  \<^verbatim>\<open>JSONOpen.__init__\<close> of \<^verbatim>\<open>processors/mrfutils.py\<close>, the one \<^verbatim>\<open>start_parser\<close> of the
  flattener uses: the suffix must be one of two strings.
\<close>

definition JSONOpen_init :: "string \<Rightarrow> parsed_url \<Rightarrow> error + jsonopen" where
  "JSONOpen_init name parsed =
     (let sfx = combined_suffix (url_path parsed) in
      if sfx \<notin> {''.json.gz'', ''.json''} then Inl InvalidMRF
      else Inr \<lparr>jo_filename = name, jo_suffix = sfx,
                jo_is_remote = (url_scheme parsed \<in> {''http'', ''https''})\<rparr>)"

text \<open>
  \<^verbatim>\<open>JSONOpen.__init__\<close> of \<^verbatim>\<open>mrfutils/helpers.py\<close>: the lower-cased suffix must end with one
  of three strings.
\<close>

definition helpers_JSONOpen_init :: "string \<Rightarrow> parsed_url \<Rightarrow> error + jsonopen" where
  "helpers_JSONOpen_init name parsed =
     (let sfx = combined_suffix (url_path parsed) in
      if \<not> (endswith (py_lower sfx) ''.json.gz'' \<or> endswith (py_lower sfx) ''.json''
              \<or> endswith (py_lower sfx) ''.zip'')
      then Inl InvalidMRF
      else Inr \<lparr>jo_filename = name, jo_suffix = sfx,
                jo_is_remote = (url_scheme parsed \<in> {''http'', ''https''})\<rparr>)"

section \<open>Hashing\<close>

subsection \<open>SHA-256\<close>

text \<open>
  \<^verbatim>\<open>hashlib.sha256(data).digest()\<close>: SHA-256 of FIPS 180-4 on a list of bytes. The round
  constants are the first 32 bits of the fractional parts of the cube roots of the first
  64 primes, the initial hash value those of the square roots of the first 8 primes.
\<close>

type_synonym byte = "8 word"

definition K256 :: "32 word list" where
  "K256 = [
      1116352408, 1899447441, 3049323471, 3921009573, 961987163,
      1508970993, 2453635748, 2870763221, 3624381080, 310598401,
      607225278, 1426881987, 1925078388, 2162078206, 2614888103,
      3248222580, 3835390401, 4022224774, 264347078, 604807628,
      770255983, 1249150122, 1555081692, 1996064986, 2554220882,
      2821834349, 2952996808, 3210313671, 3336571891, 3584528711,
      113926993, 338241895, 666307205, 773529912, 1294757372,
      1396182291, 1695183700, 1986661051, 2177026350, 2456956037,
      2730485921, 2820302411, 3259730800, 3345764771, 3516065817,
      3600352804, 4094571909, 275423344, 430227734, 506948616,
      659060556, 883997877, 958139571, 1322822218, 1537002063,
      1747873779, 1955562222, 2024104815, 2227730452, 2361852424,
      2428436474, 2756734187, 3204031479, 3329325298]"

definition H256 :: "32 word list" where
  "H256 = [
      1779033703, 3144134277, 1013904242, 2773480762, 1359893119,
      2600822924, 528734635, 1541459225]"

definition ch :: "32 word \<Rightarrow> 32 word \<Rightarrow> 32 word \<Rightarrow> 32 word" where
  "ch x y z = (x AND y) XOR (NOT x AND z)"

definition maj :: "32 word \<Rightarrow> 32 word \<Rightarrow> 32 word \<Rightarrow> 32 word" where
  "maj x y z = (x AND y) XOR (x AND z) XOR (y AND z)"

definition bsig0 :: "32 word \<Rightarrow> 32 word" where
  "bsig0 x = word_rotr 2 x XOR word_rotr 13 x XOR word_rotr 22 x"

definition bsig1 :: "32 word \<Rightarrow> 32 word" where
  "bsig1 x = word_rotr 6 x XOR word_rotr 11 x XOR word_rotr 25 x"

definition ssig0 :: "32 word \<Rightarrow> 32 word" where
  "ssig0 x = word_rotr 7 x XOR word_rotr 18 x XOR drop_bit 3 x"

definition ssig1 :: "32 word \<Rightarrow> 32 word" where
  "ssig1 x = word_rotr 17 x XOR word_rotr 19 x XOR drop_bit 10 x"

text \<open>The message, a one bit, zero bits and the bit length in 64 bits, big-endian.\<close>

definition sha256_pad :: "byte list \<Rightarrow> byte list" where
  "sha256_pad m =
     m @ [0x80] @ replicate ((64 - (length m + 9) mod 64) mod 64) 0
       @ map (\<lambda>i. of_nat ((8 * length m) div 256 ^ i mod 256)) (rev [0..<8])"

definition chunks :: "nat \<Rightarrow> 'a list \<Rightarrow> 'a list list" where
  "chunks k xs = map (\<lambda>i. take k (drop (i * k) xs)) [0..<length xs div k]"

definition be32 :: "byte list \<Rightarrow> 32 word" where
  "be32 bs = of_nat (foldl (\<lambda>acc b. 256 * acc + unat b) 0 bs)"

definition bytes32 :: "32 word \<Rightarrow> byte list" where
  "bytes32 w = [ucast (drop_bit 24 w), ucast (drop_bit 16 w), ucast (drop_bit 8 w), ucast w]"

text \<open>The message schedule: \<open>n\<close> more words after the ones at hand.\<close>

fun schedule :: "nat \<Rightarrow> 32 word list \<Rightarrow> 32 word list" where
  "schedule 0 w = w"
| "schedule (Suc n) w =
     schedule n (w @ [ssig1 (w ! (length w - 2)) + w ! (length w - 7)
                        + ssig0 (w ! (length w - 15)) + w ! (length w - 16)])"

type_synonym sha_state =
  "32 word \<times> 32 word \<times> 32 word \<times> 32 word \<times> 32 word \<times> 32 word \<times> 32 word \<times> 32 word"

fun sha256_round :: "32 word \<times> 32 word \<Rightarrow> sha_state \<Rightarrow> sha_state" where
  "sha256_round (k, w) (a, b, c, d, e, f, g, h) =
     (let t1 = h + bsig1 e + ch e f g + k + w;
          t2 = bsig0 a + maj a b c
      in (t1 + t2, a, b, c, d + t1, e, f, g))"

fun sha256_block :: "byte list \<Rightarrow> sha_state \<Rightarrow> sha_state" where
  "sha256_block block (a, b, c, d, e, f, g, h) =
     (case fold sha256_round (zip K256 (schedule 48 (map be32 (chunks 4 block))))
             (a, b, c, d, e, f, g, h) of
        (a', b', c', d', e', f', g', h') \<Rightarrow>
          (a + a', b + b', c + c', d + d', e + e', f + f', g + g', h + h'))"

definition sha256 :: "byte list \<Rightarrow> byte list" where
  "sha256 m =
     (case fold sha256_block (chunks 64 (sha256_pad m))
             (H256 ! 0, H256 ! 1, H256 ! 2, H256 ! 3, H256 ! 4, H256 ! 5, H256 ! 6, H256 ! 7) of
        (a, b, c, d, e, f, g, h) \<Rightarrow> concat (map bytes32 [a, b, c, d, e, f, g, h]))"

section \<open>Python values\<close>

text \<open>Truth value testing: \<^verbatim>\<open>if x\<close>, \<^verbatim>\<open>not x\<close>.\<close>

fun truthy :: "json \<Rightarrow> bool" where
  "truthy (Sc SNull) = False"
| "truthy (Sc (SBool b)) = b"
| "truthy (Sc (SInt i)) = (i \<noteq> 0)"
| "truthy (Sc (SFloat r)) = (r \<noteq> ''0.0'' \<and> r \<noteq> ''-0.0'')"
| "truthy (Sc (SStr s)) = (s \<noteq> [])"
| "truthy (Arr xs) = (xs \<noteq> [])"
| "truthy (Obj kvs) = (kvs \<noteq> [])"

definition digit_char :: "nat \<Rightarrow> char" where
  "digit_char n = ''0123456789abcdef'' ! n"

fun str_nat :: "nat \<Rightarrow> string" where
  "str_nat n = (if n < 10 then [digit_char n] else str_nat (n div 10) @ [digit_char (n mod 10)])"

declare str_nat.simps [simp del]

definition str_int :: "int \<Rightarrow> string" where
  "str_int i = (if i < 0 then CHR ''-'' # str_nat (nat (- i)) else str_nat (nat i))"

text \<open>
  \<^verbatim>\<open>str(x)\<close>. On a list or a dict it is Python's \<^verbatim>\<open>repr\<close>, which the model does not
  give: \<open>Unmodelled\<close>.
\<close>

fun py_str :: "json \<Rightarrow> error + string" where
  "py_str (Sc SNull) = Inr ''None''"
| "py_str (Sc (SBool b)) = Inr (if b then ''True'' else ''False'')"
| "py_str (Sc (SInt i)) = Inr (str_int i)"
| "py_str (Sc (SFloat r)) = Inr r"
| "py_str (Sc (SStr s)) = Inr s"
| "py_str (Arr xs) = Inl Unmodelled"
| "py_str (Obj kvs) = Inl Unmodelled"

text \<open>
  \<^verbatim>\<open>str.strip()\<close>: the characters \<^verbatim>\<open>str.isspace\<close> holds of, among the code points below
  256, are removed at both ends.
\<close>

definition isspace :: "char \<Rightarrow> bool" where
  "isspace c = (of_char c \<in> {9, 10, 11, 12, 13, 28, 29, 30, 31, 32, 133, 160 :: nat})"

definition strip :: "string \<Rightarrow> string" where
  "strip s = rev (dropWhile isspace (rev (dropWhile isspace s)))"

text \<open>\<^verbatim>\<open>sep.join(xs)\<close>.\<close>

fun join :: "string \<Rightarrow> string list \<Rightarrow> string" where
  "join sep [] = []"
| "join sep [x] = x"
| "join sep (x # y # ys) = x @ sep @ join sep (y # ys)"

text \<open>
  \<^verbatim>\<open>json.dumps(x)\<close> and \<^verbatim>\<open>json.dumps(x, sort_keys=True)\<close>, with the default separators
  \<^verbatim>\<open>', '\<close> and \<^verbatim>\<open>': '\<close> and the default \<^verbatim>\<open>ensure_ascii\<close>: in a string, the quote and
  the backslash are escaped, the control characters have their short escapes or
  \<^verbatim>\<open>\u00XX\<close>, and so has every character outside \<^verbatim>\<open>' '\<close> .. \<^verbatim>\<open>'~'\<close>.
\<close>

definition escape_char :: "char \<Rightarrow> string" where
  "escape_char c =
     (let n = of_char c :: nat in
      if n = 34 then [CHR 0x5C, CHR 0x22]
      else if n = 92 then [CHR 0x5C, CHR 0x5C]
      else if n = 10 then [CHR 0x5C, CHR ''n'']
      else if n = 13 then [CHR 0x5C, CHR ''r'']
      else if n = 9 then [CHR 0x5C, CHR ''t'']
      else if n = 8 then [CHR 0x5C, CHR ''b'']
      else if n = 12 then [CHR 0x5C, CHR ''f'']
      else if n < 32 \<or> 126 < n
        then [CHR 0x5C, CHR ''u'', CHR ''0'', CHR ''0'', digit_char (n div 16), digit_char (n mod 16)]
      else [c])"

definition dumps_str :: "string \<Rightarrow> string" where
  "dumps_str s = [CHR 0x22] @ concat (map escape_char s) @ [CHR 0x22]"

fun dumps_scalar :: "scalar \<Rightarrow> string" where
  "dumps_scalar SNull = ''null''"
| "dumps_scalar (SBool b) = (if b then ''true'' else ''false'')"
| "dumps_scalar (SInt i) = str_int i"
| "dumps_scalar (SFloat r) =
     (if r = ''nan'' then ''NaN'' else if r = ''inf'' then ''Infinity''
      else if r = ''-inf'' then ''-Infinity'' else r)"
| "dumps_scalar (SStr s) = dumps_str s"

lemma size_dict_entry:
  "(k, v) \<in> set kvs \<Longrightarrow> size v < Suc (size_list (size_prod (\<lambda>x. 0) size) kvs)"
  by (induction kvs) auto

lemma size_arr_entry: "x \<in> set xs \<Longrightarrow> size x < Suc (size_list size xs)"
  by (induction xs) auto

function json_dumps :: "bool \<Rightarrow> json \<Rightarrow> string" where
  "json_dumps sort_keys (Sc s) = dumps_scalar s"
| "json_dumps sort_keys (Arr xs) = ''['' @ join '', '' (map (json_dumps sort_keys) xs) @ '']''"
| "json_dumps sort_keys (Obj kvs) =
     ''{'' @ join '', ''
        (map (\<lambda>(k, v). dumps_str k @ '': '' @ json_dumps sort_keys v)
           (if sort_keys then sort_key fst kvs else kvs)) @ ''}''"
  by pat_completeness auto
termination
  by (relation "measure (\<lambda>(sort_keys, x). size x)")
     (auto simp: size_dict_entry size_arr_entry split: if_splits)

text \<open>Results with a first error: \<open>f\<close> on each element in turn, up to the first that raises.\<close>

fun mapE :: "('a \<Rightarrow> error + 'b) \<Rightarrow> 'a list \<Rightarrow> error + 'b list" where
  "mapE f [] = Inr []"
| "mapE f (x # xs) =
     (case f x of
        Inl e \<Rightarrow> Inl e
      | Inr y \<Rightarrow> (case mapE f xs of Inl e \<Rightarrow> Inl e | Inr ys \<Rightarrow> Inr (y # ys)))"

text \<open>\<^verbatim>\<open>x[key]\<close> and \<^verbatim>\<open>x.get(key)\<close> for a string key: only a dict has them.\<close>

fun get_item :: "json \<Rightarrow> string \<Rightarrow> error + json" where
  "get_item (Obj d) k = (case map_of d k of None \<Rightarrow> Inl KeyError | Some v \<Rightarrow> Inr v)"
| "get_item x k = Inl TypeError"

definition dict_get :: "dict \<Rightarrow> string \<Rightarrow> json" where
  "dict_get d k = (case map_of d k of None \<Rightarrow> Sc SNull | Some v \<Rightarrow> v)"

fun py_get :: "json \<Rightarrow> string \<Rightarrow> error + json" where
  "py_get (Obj d) k = Inr (dict_get d k)"
| "py_get x k = Inl TypeError"

text \<open>\<^verbatim>\<open>x[key] = v\<close> on a dict.\<close>

fun set_item :: "json \<Rightarrow> string \<Rightarrow> json \<Rightarrow> error + json" where
  "set_item (Obj d) k v = Inr (Obj (AList.update k v d))"
| "set_item x k v = Inl TypeError"

text \<open>What \<^verbatim>\<open>for x in v\<close> goes through.\<close>

fun py_iter :: "json \<Rightarrow> error + json list" where
  "py_iter (Arr xs) = Inr xs"
| "py_iter (Sc (SStr s)) = Inr (map (\<lambda>c. Sc (SStr [c])) s)"
| "py_iter (Obj kvs) = Inr (map (\<lambda>kv. Sc (SStr (fst kv))) kvs)"
| "py_iter (Sc s) = Inl TypeError"

fun as_str :: "json \<Rightarrow> string option" where
  "as_str (Sc (SStr s)) = Some s"
| "as_str x = None"

fun as_int :: "json \<Rightarrow> int option" where
  "as_int (Sc (SInt i)) = Some i"
| "as_int x = None"

fun all_of :: "('a \<Rightarrow> 'b option) \<Rightarrow> 'a list \<Rightarrow> 'b list option" where
  "all_of f [] = Some []"
| "all_of f (x # xs) =
     (case f x of
        None \<Rightarrow> None
      | Some y \<Rightarrow> (case all_of f xs of None \<Rightarrow> None | Some ys \<Rightarrow> Some (y # ys)))"

text \<open>
  \<^verbatim>\<open>sorted(v)\<close>: strings are ordered by code points, integers by value. A list of one
  element needs no comparison. On other lists Python compares values of different
  kinds, which may raise or not: \<open>Unmodelled\<close>.
\<close>

definition py_sorted :: "json \<Rightarrow> error + json list" where
  "py_sorted v =
     (case py_iter v of
        Inl e \<Rightarrow> Inl e
      | Inr xs \<Rightarrow>
          (case all_of as_str xs of
             Some ss \<Rightarrow> Inr (map (\<lambda>s. Sc (SStr s)) (sort ss))
           | None \<Rightarrow>
               (case all_of as_int xs of
                  Some ns \<Rightarrow> Inr (map (\<lambda>i. Sc (SInt i)) (sort ns))
                | None \<Rightarrow> if length xs \<le> 1 then Inr xs else Inl Unmodelled)))"

subsection \<open>The content hash\<close>

text \<open>\<^verbatim>\<open>s.encode('utf-8')\<close> for code points below 256.\<close>

definition encode_utf8 :: "string \<Rightarrow> byte list" where
  "encode_utf8 s =
     concat (map (\<lambda>c. let n = of_char c :: nat in
                        if n < 128 then [of_nat n]
                        else [of_nat (192 + n div 64), of_nat (128 + n mod 64)]) s)"

text \<open>\<^verbatim>\<open>int.from_bytes(bs, 'little')\<close>.\<close>

definition from_bytes_little :: "byte list \<Rightarrow> int" where
  "from_bytes_little bs = foldr (\<lambda>b acc. uint b + 256 * acc) bs 0"

definition dicthasher :: "dict \<Rightarrow> nat \<Rightarrow> error + int" where
  "dicthasher data n_bytes =
     (if data = [] then Inl HashEmpty
      else Inr (from_bytes_little
                  (take n_bytes (sha256 (encode_utf8 (json_dumps True (Obj data)))))))"

text \<open>\<^verbatim>\<open>append_hash\<close>; \<^verbatim>\<open>n_bytes\<close> has its default, 8.\<close>

definition append_hash :: "dict \<Rightarrow> string \<Rightarrow> error + dict" where
  "append_hash item name =
     (case dicthasher item 8 of
        Inl e \<Rightarrow> Inl e
      | Inr h \<Rightarrow> Inr (AList.update name (Sc (SInt h)) item))"

text \<open>
  \<^verbatim>\<open>Path(filename).stem.split('.')[0]\<close>: the stem is the name without its last suffix,
  when \<^verbatim>\<open>0 < name.rfind('.') < len(name) - 1\<close>.
\<close>

definition rfind :: "char \<Rightarrow> string \<Rightarrow> nat option" where
  "rfind c s =
     (let r = length (takeWhile (\<lambda>x. x \<noteq> c) (rev s))
      in if r = length s then None else Some (length s - 1 - r))"

definition path_stem :: "string \<Rightarrow> string" where
  "path_stem p =
     (let name = path_name p
      in case rfind CHR ''.'' name of
           None \<Rightarrow> name
         | Some i \<Rightarrow> if 0 < i \<and> i + 1 < length name then take i name else name)"

definition stem_head :: "string \<Rightarrow> string" where
  "stem_head filename = hd (split_on CHR ''.'' (path_stem filename))"

definition filename_hasher :: "string \<Rightarrow> error + int" where
  "filename_hasher filename = dicthasher [(''filename'', Sc (SStr (stem_head filename)))] 8"

section \<open>Rows\<close>

definition plan_keys :: "string list" where
  "plan_keys = [''reporting_entity_name'', ''reporting_entity_type'', ''plan_name'',
     ''plan_id'', ''plan_id_type'', ''plan_market_type'', ''last_updated_on'', ''version'']"

text \<open>\<^verbatim>\<open>{key: x.get(key) for key in keys}\<close>.\<close>

definition get_all :: "json \<Rightarrow> string list \<Rightarrow> error + dict" where
  "get_all x keys =
     mapE (\<lambda>k. case py_get x k of Inl e \<Rightarrow> Inl e | Inr v \<Rightarrow> Inr (k, v)) keys"

definition plan_row_from_dict :: "json \<Rightarrow> error + dict" where
  "plan_row_from_dict plan =
     (case get_all plan plan_keys of
        Inl e \<Rightarrow> Inl e
      | Inr plan_row \<Rightarrow> append_hash plan_row ''plan_hash'')"

definition file_row_from_filename :: "string \<Rightarrow> json \<Rightarrow> string \<Rightarrow> dict" where
  "file_row_from_filename fname filename_hash url =
     [(''filename'', Sc (SStr (stem_head fname))), (''filename_hash'', filename_hash),
      (''url'', Sc (SStr url))]"

definition plan_file_row_from_row :: "dict \<Rightarrow> json \<Rightarrow> error + dict" where
  "plan_file_row_from_row plan_row filename_hash =
     (case get_item (Obj plan_row) ''plan_hash'' of
        Inl e \<Rightarrow> Inl e
      | Inr h \<Rightarrow> Inr [(''plan_hash'', h), (''filename_hash'', filename_hash)])"

text \<open>\<^verbatim>\<open>x.strip()\<close>: only a \<^verbatim>\<open>str\<close> has it.\<close>

fun py_strip :: "json \<Rightarrow> error + json" where
  "py_strip (Sc (SStr s)) = Inr (Sc (SStr (strip s)))"
| "py_strip x = Inl TypeError"

definition code_row_from_dict :: "json \<Rightarrow> error + dict" where
  "code_row_from_dict in_network_item =
     (case mapE (\<lambda>k. case get_item in_network_item k of
                        Inl e \<Rightarrow> Inl e
                      | Inr v \<Rightarrow> (case py_strip v of Inl e \<Rightarrow> Inl e | Inr w \<Rightarrow> Inr (k, w)))
             [''billing_code_type'', ''billing_code_type_version'', ''billing_code''] of
        Inl e \<Rightarrow> Inl e
      | Inr code_row \<Rightarrow> append_hash code_row ''code_hash'')"

text \<open>
  The loop of \<^verbatim>\<open>price_row_from_dict\<close> over the optional keys:
  \<^verbatim>\<open>[value.strip() for value in sorted(price[key])]\<close>, sorted first and stripped after.
\<close>

fun optional_json :: "json \<Rightarrow> string list \<Rightarrow> dict \<Rightarrow> error + dict" where
  "optional_json price [] price_row = Inr price_row"
| "optional_json price (k # keys) price_row =
     (case py_get price k of
        Inl e \<Rightarrow> Inl e
      | Inr v \<Rightarrow>
          if truthy v then
            (case py_sorted v of
               Inl e \<Rightarrow> Inl e
             | Inr vs \<Rightarrow>
                 (case mapE py_strip vs of
                    Inl e \<Rightarrow> Inl e
                  | Inr sorted_value \<Rightarrow>
                      optional_json price keys
                        (AList.update k (Sc (SStr (json_dumps False (Arr sorted_value))))
                           price_row)))
          else optional_json price keys price_row)"

definition price_row_from_dict :: "json \<Rightarrow> json \<Rightarrow> json \<Rightarrow> error + dict" where
  "price_row_from_dict price code_hash filename_hash =
     (case get_all price [''billing_class'', ''negotiated_type'', ''expiration_date'',
              ''negotiated_rate'', ''additional_information''] of
        Inl e \<Rightarrow> Inl e
      | Inr price_row \<Rightarrow>
          (case optional_json price [''service_code'', ''billing_code_modifier''] price_row of
             Inl e \<Rightarrow> Inl e
           | Inr price_row' \<Rightarrow>
               append_hash
                 (AList.update ''filename_hash'' filename_hash
                    (AList.update ''code_hash'' code_hash price_row'))
                 ''price_hash''))"

definition price_rows_from_dicts :: "json \<Rightarrow> json \<Rightarrow> json \<Rightarrow> error + dict list" where
  "price_rows_from_dicts prices code_hash filename_hash =
     (case py_iter prices of
        Inl e \<Rightarrow> Inl e
      | Inr ps \<Rightarrow> mapE (\<lambda>price. price_row_from_dict price code_hash filename_hash) ps)"

definition group_row_from_dict :: "json \<Rightarrow> error + dict" where
  "group_row_from_dict grp =
     (case get_item grp ''npi'' of
        Inl e \<Rightarrow> Inl e
      | Inr npi \<Rightarrow>
     (case py_sorted npi of
        Inl e \<Rightarrow> Inl e
      | Inr sorted_npi \<Rightarrow>
     (case get_item grp ''tin'' of
        Inl e \<Rightarrow> Inl e
      | Inr tin \<Rightarrow>
     (case get_item tin ''type'' of
        Inl e \<Rightarrow> Inl e
      | Inr tin_type \<Rightarrow>
     (case get_item tin ''value'' of
        Inl e \<Rightarrow> Inl e
      | Inr tin_value \<Rightarrow>
          append_hash
            [(''npi_numbers'', Sc (SStr (json_dumps False (Arr sorted_npi)))),
             (''tin_type'', tin_type), (''tin_value'', tin_value)]
            ''provider_group_hash'')))))"

definition group_rows_from_dicts :: "json \<Rightarrow> error + dict list" where
  "group_rows_from_dicts groups =
     (case py_iter groups of Inl e \<Rightarrow> Inl e | Inr gs \<Rightarrow> mapE group_row_from_dict gs)"

definition prices_groups_row :: "dict \<Rightarrow> dict \<Rightarrow> error + dict" where
  "prices_groups_row price_row group_row =
     (case get_item (Obj group_row) ''provider_group_hash'' of
        Inl e \<Rightarrow> Inl e
      | Inr gh \<Rightarrow>
          (case get_item (Obj price_row) ''price_hash'' of
             Inl e \<Rightarrow> Inl e
           | Inr ph \<Rightarrow> Inr [(''provider_group_hash'', gh), (''price_hash'', ph)]))"

definition prices_groups_rows_from_dicts :: "dict list \<Rightarrow> dict list \<Rightarrow> error + dict list" where
  "prices_groups_rows_from_dicts price_rows group_rows =
     mapE (\<lambda>(price_row, group_row). prices_groups_row price_row group_row)
       (concat (map (\<lambda>price_row. map (\<lambda>group_row. (price_row, group_row)) group_rows)
                  price_rows))"

section \<open>NPI filtering\<close>

text \<open>
  \<^verbatim>\<open>process_group\<close>. The NPI filter is a set of strings; the empty set stands for both
  \<^verbatim>\<open>None\<close> and \<^verbatim>\<open>set()\<close>, which \<^verbatim>\<open>not npi_filter\<close> does not tell apart. The result is
  \<open>None\<close> when the function falls through its last \<^verbatim>\<open>if\<close>.
\<close>

definition process_group :: "json \<Rightarrow> string set \<Rightarrow> error + json option" where
  "process_group grp npi_filter =
     (case get_item grp ''npi'' of
        Inl e \<Rightarrow> Inl e
      | Inr npi \<Rightarrow>
     (case py_iter npi of
        Inl e \<Rightarrow> Inl e
      | Inr ns \<Rightarrow>
     (case mapE py_str ns of
        Inl e \<Rightarrow> Inl e
      | Inr strs \<Rightarrow>
          if npi_filter = {} then
            (case set_item grp ''npi'' (Arr (map (\<lambda>n. Sc (SStr n)) strs)) of
               Inl e \<Rightarrow> Inl e
             | Inr g \<Rightarrow> Inr (Some g))
          else
            (let kept = filter (\<lambda>n. n \<in> npi_filter) strs in
             case set_item grp ''npi'' (Arr (map (\<lambda>n. Sc (SStr n)) kept)) of
               Inl e \<Rightarrow> Inl e
             | Inr g \<Rightarrow> Inr (if kept \<noteq> [] then Some g else None)))))"

text \<open>
  \<^verbatim>\<open>process_arr(func, arr)\<close>: the items \<^verbatim>\<open>func\<close> returns that are true, in order.
\<close>

fun process_arr :: "(json \<Rightarrow> error + json option) \<Rightarrow> json list \<Rightarrow> error + json list" where
  "process_arr func [] = Inr []"
| "process_arr func (item # arr) =
     (case func item of
        Inl e \<Rightarrow> Inl e
      | Inr processed_item \<Rightarrow>
          (case process_arr func arr of
             Inl e \<Rightarrow> Inl e
           | Inr processed_arr \<Rightarrow>
               Inr (case processed_item of
                      None \<Rightarrow> processed_arr
                    | Some x \<Rightarrow> if truthy x then x # processed_arr else processed_arr)))"

definition process_groups :: "json \<Rightarrow> string set \<Rightarrow> error + json list" where
  "process_groups groups npi_filter =
     (case py_iter groups of
        Inl e \<Rightarrow> Inl e
      | Inr gs \<Rightarrow> process_arr (\<lambda>g. process_group g npi_filter) gs)"

definition process_rate :: "json \<Rightarrow> string set \<Rightarrow> error + json option" where
  "process_rate rate npi_filter =
     (case py_get rate ''provider_groups'' of
        Inl e \<Rightarrow> Inl e
      | Inr groups \<Rightarrow>
          (case (if truthy groups then
                   (case process_groups groups npi_filter of
                      Inl e \<Rightarrow> Inl e
                    | Inr gs \<Rightarrow> set_item rate ''provider_groups'' (Arr gs))
                 else Inr rate) of
             Inl e \<Rightarrow> Inl e
           | Inr rate' \<Rightarrow>
               (case py_get rate' ''provider_groups'' of
                  Inl e \<Rightarrow> Inl e
                | Inr g \<Rightarrow> Inr (if truthy g then Some rate' else None))))"

definition process_rates :: "json \<Rightarrow> string set \<Rightarrow> error + json list" where
  "process_rates rates npi_filter =
     (case py_iter rates of
        Inl e \<Rightarrow> Inl e
      | Inr rs \<Rightarrow> process_arr (\<lambda>r. process_rate r npi_filter) rs)"

definition process_reference :: "json \<Rightarrow> string set \<Rightarrow> error + json option" where
  "process_reference reference npi_filter =
     (case get_item reference ''provider_groups'' of
        Inl e \<Rightarrow> Inl e
      | Inr groups \<Rightarrow>
          (case process_groups groups npi_filter of
             Inl e \<Rightarrow> Inl e
           | Inr gs \<Rightarrow>
               if gs \<noteq> [] then
                 (case get_item reference ''provider_group_id'' of
                    Inl e \<Rightarrow> Inl e
                  | Inr group_id \<Rightarrow>
                      Inr (Some (Obj [(''provider_group_id'', group_id),
                                      (''provider_groups'', Arr gs)])))
               else Inr None))"

text \<open>
  A generator of items: what each successive \<^verbatim>\<open>next\<close> does, as for a parser. A generator
  that raises is finished, so an \<open>Inl\<close> is the last element.
\<close>

type_synonym items = "(error + json) list"

fun process_in_network :: "items \<Rightarrow> string set \<Rightarrow> items" where
  "process_in_network [] npi_filter = []"
| "process_in_network (Inl e # in_network_items) npi_filter = [Inl e]"
| "process_in_network (Inr in_network_item # in_network_items) npi_filter =
     (case get_item in_network_item ''negotiated_rates'' of
        Inl e \<Rightarrow> [Inl e]
      | Inr rates \<Rightarrow>
          (case process_rates rates npi_filter of
             Inl e \<Rightarrow> [Inl e]
           | Inr rs \<Rightarrow>
               if rs \<noteq> [] then
                 (case set_item in_network_item ''negotiated_rates'' (Arr rs) of
                    Inl e \<Rightarrow> [Inl e]
                  | Inr item' \<Rightarrow> Inr item' # process_in_network in_network_items npi_filter)
               else process_in_network in_network_items npi_filter))"

section \<open>Writing the tables\<close>

datatype table =
  Files | Plans | PlansFiles | Codes | Prices | ProviderGroups | PricesProviderGroups

text \<open>
  Modelled from the spec: the constant \<^verbatim>\<open>SCHEMA\<close> of the module \<^verbatim>\<open>schema\<close>, which is not
  among the source files. These are the columns of the specification's table of the
  output CSV schema, in its order.
\<close>

fun SCHEMA :: "table \<Rightarrow> string list" where
  "SCHEMA Files = [''filename'', ''filename_hash'', ''url'']"
| "SCHEMA Plans = [''reporting_entity_name'', ''reporting_entity_type'', ''plan_name'',
     ''plan_id'', ''plan_id_type'', ''plan_market_type'', ''last_updated_on'', ''version'',
     ''plan_hash'']"
| "SCHEMA PlansFiles = [''plan_hash'', ''filename_hash'']"
| "SCHEMA Codes = [''billing_code_type'', ''billing_code_type_version'', ''billing_code'',
     ''code_hash'']"
| "SCHEMA Prices = [''billing_class'', ''negotiated_type'', ''expiration_date'',
     ''negotiated_rate'', ''additional_information'', ''service_code'',
     ''billing_code_modifier'', ''code_hash'', ''filename_hash'', ''price_hash'']"
| "SCHEMA ProviderGroups = [''npi_numbers'', ''tin_type'', ''tin_value'',
     ''provider_group_hash'']"
| "SCHEMA PricesProviderGroups = [''provider_group_hash'', ''price_hash'']"

text \<open>
  The output directory. \<open>existing\<close> are the tables whose CSV file exists; \<open>written\<close> are
  the lines this run has appended, to whichever file, in the order of writing. Any
  operation on the file system may fail: \<open>budget\<close> is the number of operations that will
  still succeed, and the next one raises \<open>IOError\<close>. As the program stops at the first
  error, this covers every pattern of failures.
\<close>

datatype line = Header "string list" | Row "(string \<times> json) list"

record fs =
  dir_exists :: bool
  existing :: "table set"
  written :: "(table \<times> line) list"
  budget :: nat

definition make_dir :: "fs \<Rightarrow> error option \<times> fs" where
  "make_dir s =
     (if dir_exists s then (None, s)
      else if budget s = 0 then (Some IOError, s)
      else (None, s\<lparr>dir_exists := True, budget := budget s - 1\<rparr>))"

text \<open>\<^verbatim>\<open>open(file_loc, 'a', newline='')\<close>: the file is created when it is not there.\<close>

definition open_append :: "table \<Rightarrow> fs \<Rightarrow> error option \<times> fs" where
  "open_append t s =
     (if \<not> dir_exists s \<or> budget s = 0 then (Some IOError, s)
      else (None, s\<lparr>existing := insert t (existing s), budget := budget s - 1\<rparr>))"

definition put_line :: "table \<Rightarrow> line \<Rightarrow> fs \<Rightarrow> error option \<times> fs" where
  "put_line t l s =
     (if budget s = 0 then (Some IOError, s)
      else (None, s\<lparr>written := written s @ [(t, l)], budget := budget s - 1\<rparr>))"

text \<open>
  \<^verbatim>\<open>DictWriter.writerow\<close>: a key outside the field names is a \<^verbatim>\<open>ValueError\<close>; the cells
  are \<^verbatim>\<open>row.get(field, '')\<close> in the order of the field names.
\<close>

definition cell :: "string \<Rightarrow> dict \<Rightarrow> json" where
  "cell f row = (case map_of row f of None \<Rightarrow> Sc (SStr []) | Some v \<Rightarrow> v)"

definition row_line :: "table \<Rightarrow> dict \<Rightarrow> line" where
  "row_line t row = Row (map (\<lambda>f. (f, cell f row)) (SCHEMA t))"

definition writerow :: "table \<Rightarrow> dict \<Rightarrow> fs \<Rightarrow> error option \<times> fs" where
  "writerow t row s =
     (if \<not> list_all (\<lambda>k. k \<in> set (SCHEMA t)) (map fst row) then (Some ValueError, s)
      else put_line t (row_line t row) s)"

fun writerows :: "table \<Rightarrow> dict list \<Rightarrow> fs \<Rightarrow> error option \<times> fs" where
  "writerows t [] s = (None, s)"
| "writerows t (row # rows) s =
     (case writerow t row s of
        (Some e, s') \<Rightarrow> (Some e, s')
      | (None, s') \<Rightarrow> writerows t rows s')"

text \<open>The argument \<^verbatim>\<open>rows: list[dict] | dict\<close> of \<^verbatim>\<open>write_table\<close>.\<close>

datatype rows = RowList "dict list" | RowDict dict

definition write_table :: "rows \<Rightarrow> table \<Rightarrow> fs \<Rightarrow> error option \<times> fs" where
  "write_table rows tablename s =
     (let file_exists = (tablename \<in> existing s) in
      case open_append tablename s of
        (Some e, s1) \<Rightarrow> (Some e, s1)
      | (None, s1) \<Rightarrow>
          (case (if \<not> file_exists then put_line tablename (Header (SCHEMA tablename)) s1
                 else (None, s1)) of
             (Some e, s2) \<Rightarrow> (Some e, s2)
           | (None, s2) \<Rightarrow>
               (case rows of
                  RowList rs \<Rightarrow> writerows tablename rs s2
                | RowDict row \<Rightarrow> writerow tablename row s2)))"

definition write_plan ::
  "json \<Rightarrow> json \<Rightarrow> string \<Rightarrow> string \<Rightarrow> fs \<Rightarrow> error option \<times> fs" where
  "write_plan plan filename_hash fname url s =
     (case write_table (RowDict (file_row_from_filename fname filename_hash url)) Files s of
        (Some e, s1) \<Rightarrow> (Some e, s1)
      | (None, s1) \<Rightarrow>
     (case plan_row_from_dict plan of
        Inl e \<Rightarrow> (Some e, s1)
      | Inr plan_row \<Rightarrow>
     (case write_table (RowDict plan_row) Plans s1 of
        (Some e, s2) \<Rightarrow> (Some e, s2)
      | (None, s2) \<Rightarrow>
     (case plan_file_row_from_row plan_row filename_hash of
        Inl e \<Rightarrow> (Some e, s2)
      | Inr plan_file_row \<Rightarrow> write_table (RowDict plan_file_row) PlansFiles s2))))"

text \<open>\<^verbatim>\<open>x.get(key, default)\<close>.\<close>

fun py_get_default :: "json \<Rightarrow> string \<Rightarrow> json \<Rightarrow> error + json" where
  "py_get_default (Obj d) k dflt = Inr (case map_of d k of None \<Rightarrow> dflt | Some v \<Rightarrow> v)"
| "py_get_default x k dflt = Inl TypeError"

text \<open>The body of the loop of \<^verbatim>\<open>write_in_network_item\<close> over the rates, and the loop.\<close>

definition write_rate :: "json \<Rightarrow> json \<Rightarrow> json \<Rightarrow> fs \<Rightarrow> error option \<times> fs" where
  "write_rate rate code_hash filename_hash s =
     (case get_item rate ''negotiated_prices'' of
        Inl e \<Rightarrow> (Some e, s)
      | Inr prices \<Rightarrow>
     (case py_get_default rate ''provider_groups'' (Arr []) of
        Inl e \<Rightarrow> (Some e, s)
      | Inr groups \<Rightarrow>
     (case price_rows_from_dicts prices code_hash filename_hash of
        Inl e \<Rightarrow> (Some e, s)
      | Inr price_rows \<Rightarrow>
     (case write_table (RowList price_rows) Prices s of
        (Some e, s1) \<Rightarrow> (Some e, s1)
      | (None, s1) \<Rightarrow>
     (case group_rows_from_dicts groups of
        Inl e \<Rightarrow> (Some e, s1)
      | Inr group_rows \<Rightarrow>
     (case write_table (RowList group_rows) ProviderGroups s1 of
        (Some e, s2) \<Rightarrow> (Some e, s2)
      | (None, s2) \<Rightarrow>
     (case prices_groups_rows_from_dicts price_rows group_rows of
        Inl e \<Rightarrow> (Some e, s2)
      | Inr prices_groups_rows \<Rightarrow>
          write_table (RowList prices_groups_rows) PricesProviderGroups s2)))))))"

fun write_rates :: "json list \<Rightarrow> json \<Rightarrow> json \<Rightarrow> fs \<Rightarrow> error option \<times> fs" where
  "write_rates [] code_hash filename_hash s = (None, s)"
| "write_rates (rate # rates) code_hash filename_hash s =
     (case write_rate rate code_hash filename_hash s of
        (Some e, s') \<Rightarrow> (Some e, s')
      | (None, s') \<Rightarrow> write_rates rates code_hash filename_hash s')"

definition write_in_network_item :: "json \<Rightarrow> json \<Rightarrow> fs \<Rightarrow> error option \<times> fs" where
  "write_in_network_item in_network_item filename_hash s =
     (case code_row_from_dict in_network_item of
        Inl e \<Rightarrow> (Some e, s)
      | Inr code_row \<Rightarrow>
     (case write_table (RowDict code_row) Codes s of
        (Some e, s1) \<Rightarrow> (Some e, s1)
      | (None, s1) \<Rightarrow>
     (case get_item (Obj code_row) ''code_hash'' of
        Inl e \<Rightarrow> (Some e, s1)
      | Inr code_hash \<Rightarrow>
     (case get_item in_network_item ''negotiated_rates'' of
        Inl e \<Rightarrow> (Some e, s1)
      | Inr rates \<Rightarrow>
     (case py_iter rates of
        Inl e \<Rightarrow> (Some e, s1)
      | Inr rs \<Rightarrow>
     (case write_rates rs code_hash filename_hash s1 of
        (Some e, s2) \<Rightarrow> (Some e, s2)
      | (None, s2) \<Rightarrow>
     (case get_item in_network_item ''billing_code_type'' of
        Inl e \<Rightarrow> (Some e, s2)
      | Inr code_type \<Rightarrow>
     (case get_item in_network_item ''billing_code'' of
        Inl e \<Rightarrow> (Some e, s2)
      | Inr code \<Rightarrow> (None, s2)))))))))"

text \<open>The lines of one table among those written, and a column of its rows.\<close>

definition lines_of :: "table \<Rightarrow> fs \<Rightarrow> line list" where
  "lines_of t s = map snd (filter (\<lambda>tl. fst tl = t) (written s))"

fun column_of :: "string \<Rightarrow> line list \<Rightarrow> json list" where
  "column_of c [] = []"
| "column_of c (Header names # ls) = column_of c ls"
| "column_of c (Row cells # ls) =
     (case map_of cells c of None \<Rightarrow> column_of c ls | Some v \<Rightarrow> v # column_of c ls)"

text \<open>
  The invariant of the link table: every \<^verbatim>\<open>provider_group_hash\<close> among the rows written
  to \<^verbatim>\<open>prices_provider_groups\<close> is among the rows written to \<^verbatim>\<open>provider_groups\<close>.
\<close>

definition links_have_groups :: "fs \<Rightarrow> bool" where
  "links_have_groups s =
     (set (column_of ''provider_group_hash'' (lines_of PricesProviderGroups s))
        \<subseteq> set (column_of ''provider_group_hash'' (lines_of ProviderGroups s)))"

section \<open>The in-network items\<close>

text \<open>\<^verbatim>\<open>len(x)\<close> and \<^verbatim>\<open>x[-1]\<close>.\<close>

fun py_len :: "json \<Rightarrow> error + nat" where
  "py_len (Arr xs) = Inr (length xs)"
| "py_len (Obj kvs) = Inr (length kvs)"
| "py_len (Sc (SStr s)) = Inr (length s)"
| "py_len (Sc s) = Inl TypeError"

fun last_item :: "json \<Rightarrow> error + json" where
  "last_item (Arr xs) = (if xs = [] then Inl IndexError else Inr (last xs))"
| "last_item (Sc (SStr s)) = (if s = [] then Inl IndexError else Inr (Sc (SStr [last s])))"
| "last_item (Obj kvs) = Inl KeyError"
| "last_item (Sc s) = Inl TypeError"

text \<open>
  \<^verbatim>\<open>builder.value.pop()\<close>, on a value that is a list: its last element is removed and
  returned. When that element is a container still open, it is the one the frames
  above the outermost hold: it leaves \<^verbatim>\<open>value\<close>, and the closures of these frames stay
  on the stack, detached.
\<close>

definition value_pop :: "builder \<Rightarrow> error + (json \<times> builder)" where
  "value_pop b =
     (case frames b of
        [] \<Rightarrow>
          (case bvalue b of
             None \<Rightarrow> Inl TypeError
           | Some (Arr xs) \<Rightarrow>
               if xs = [] then Inl IndexError
               else Inr (last xs, b\<lparr>bvalue := Some (Arr (butlast xs))\<rparr>)
           | Some x \<Rightarrow> Inl TypeError)
      | f # fs \<Rightarrow>
          (case last (f # fs) of
             OpenMap kvs slot \<Rightarrow> Inl TypeError
           | OpenArr xs slot \<Rightarrow>
               (case plug (butlast (f # fs)) of
                  Some child \<Rightarrow>
                    Inr (child, b\<lparr>frames := [OpenArr xs slot],
                                   detached := detached b + length fs\<rparr>)
                | None \<Rightarrow>
                    if xs = [] then Inl IndexError
                    else Inr (last xs, b\<lparr>frames := [OpenArr (butlast xs) slot]\<rparr>))))"

text \<open>
  The code filter is a set of pairs \<^verbatim>\<open>(type, code)\<close> of strings; the empty set stands for
  \<^verbatim>\<open>None\<close> too. \<^verbatim>\<open>(code_type, str(code)) not in code_filter\<close> hashes the pair, which
  raises when \<^verbatim>\<open>code_type\<close> is a list or a dict; a pair whose first component is not a
  \<^verbatim>\<open>str\<close> is in no such set.
\<close>

definition not_in_filter :: "json \<Rightarrow> json \<Rightarrow> (string \<times> string) set \<Rightarrow> error + bool" where
  "not_in_filter code_type code code_filter =
     (case py_str code of
        Inl e \<Rightarrow> Inl e
      | Inr s \<Rightarrow>
          (case code_type of
             Sc (SStr t) \<Rightarrow> Inr ((t, s) \<notin> code_filter)
           | Sc x \<Rightarrow> Inr True
           | x \<Rightarrow> Inl TypeError))"

text \<open>
  The three statements both branches of \<^verbatim>\<open>skip_item_by_code\<close> end with:
  \<^verbatim>\<open>ffwd(parser, to_prefix='in_network.item', to_event='end_map')\<close>,
  \<^verbatim>\<open>builder.value.pop()\<close>, \<^verbatim>\<open>builder.containers.pop()\<close>.
\<close>

definition skip_item :: "parser \<Rightarrow> builder \<Rightarrow> error + (parser \<times> builder)" where
  "skip_item parser b =
     (case ffwd parser (Some ''in_network.item'') (Some EndMap) None of
        Inl e \<Rightarrow> Inl e
      | Inr parser' \<Rightarrow>
          (case value_pop b of
             Inl e \<Rightarrow> Inl e
           | Inr (x, b1) \<Rightarrow>
               (case pop_container b1 of
                  Inl e \<Rightarrow> Inl e
                | Inr b2 \<Rightarrow> Inr (parser', b2))))"

text \<open>
  \<^verbatim>\<open>skip_item_by_code\<close>, called when \<^verbatim>\<open>builder.value\<close> is set: \<open>v\<close> is that value. The
  result is the parser and the builder as the function leaves them.
\<close>

definition skip_item_by_code ::
  "parser \<Rightarrow> builder \<Rightarrow> (string \<times> string) set \<Rightarrow> error + (parser \<times> builder)" where
  "skip_item_by_code parser b code_filter =
     (case builder_value b of
        None \<Rightarrow> Inl TypeError
      | Some v \<Rightarrow>
     (case last_item v of
        Inl e \<Rightarrow> Inl e
      | Inr item \<Rightarrow>
     (case py_get item ''billing_code_type'' of
        Inl e \<Rightarrow> Inl e
      | Inr code_type \<Rightarrow>
     (case py_get item ''billing_code'' of
        Inl e \<Rightarrow> Inl e
      | Inr code \<Rightarrow>
     (case (if truthy code \<and> truthy code_type \<and> code_filter \<noteq> {}
            then not_in_filter code_type code code_filter else Inr False) of
        Inl e \<Rightarrow> Inl e
      | Inr True \<Rightarrow> skip_item parser b
      | Inr False \<Rightarrow>
     (case py_get item ''negotiation_arrangement'' of
        Inl e \<Rightarrow> Inl e
      | Inr arrangement \<Rightarrow>
          if truthy arrangement \<and> arrangement \<noteq> Sc (SStr ''ffs'') then skip_item parser b
          else Inr (parser, b)))))))"

text \<open>
  \<^verbatim>\<open>hasattr(builder, 'value') and len(builder.value) > 0\<close>, and the call it guards.
\<close>

definition maybe_skip ::
  "parser \<Rightarrow> builder \<Rightarrow> (string \<times> string) set \<Rightarrow> error + (parser \<times> builder)" where
  "maybe_skip parser b code_filter =
     (case builder_value b of
        None \<Rightarrow> Inr (parser, b)
      | Some v \<Rightarrow>
          (case py_len v of
             Inl e \<Rightarrow> Inl e
           | Inr n \<Rightarrow> if n > 0 then skip_item_by_code parser b code_filter else Inr (parser, b)))"

text \<open>
  A \<^verbatim>\<open>StopIteration\<close> that escapes the body of a generator is turned into a
  \<^verbatim>\<open>RuntimeError\<close> (PEP 479); so is the one of \<^verbatim>\<open>ffwd\<close> inside \<^verbatim>\<open>gen_in_network_items\<close>.
\<close>

definition in_generator :: "error \<Rightarrow> error" where
  "in_generator e = (if e = StopIteration then RuntimeError else e)"

lemma ffwd_loop1_length:
  "ffwd_loop1 parser to_prefix to_event = Inr rest \<Longrightarrow> length rest < length parser"
  by (induction parser to_prefix to_event rule: ffwd_loop1.induct)
     (auto split: if_splits)

lemma maybe_skip_length:
  "maybe_skip parser b code_filter = Inr (parser', b') \<Longrightarrow> length parser' \<le> length parser"
  by (auto simp: maybe_skip_def skip_item_by_code_def skip_item_def ffwd_def
           split: option.splits sum.splits if_splits bool.splits prod.splits
           dest!: ffwd_loop1_length)

text \<open>
  The loop of \<^verbatim>\<open>gen_in_network_items\<close>, with its builder: the items it yields, up to its
  return or to the exception it raises.
\<close>

function gen_in_network_loop ::
  "builder \<Rightarrow> parser \<Rightarrow> (string \<times> string) set \<Rightarrow> items" where
  "gen_in_network_loop b [] code_filter = []"
| "gen_in_network_loop b (Inl e # parser) code_filter = [Inl e]"
| "gen_in_network_loop b (Inr (prefix, event, v) # parser) code_filter =
     (case builder_event b event v of
        Inl e \<Rightarrow> [Inl (in_generator e)]
      | Inr b1 \<Rightarrow>
          (case maybe_skip parser b1 code_filter of
             Inl e \<Rightarrow> [Inl (in_generator e)]
           | Inr (parser', b2) \<Rightarrow>
               if (prefix, event) = (''in_network.item'', EndMap) then
                 (case value_pop b2 of
                    Inl e \<Rightarrow> [Inl (in_generator e)]
                  | Inr (in_network_item, b3) \<Rightarrow>
                      Inr in_network_item # gen_in_network_loop b3 parser' code_filter)
               else if (prefix, event) = (''in_network'', EndArray) then []
               else gen_in_network_loop b2 parser' code_filter))"
  by pat_completeness auto
termination
  by (relation "measure (\<lambda>(b, parser, code_filter). length parser)")
     (auto dest: maybe_skip_length)

definition gen_in_network_items :: "parser \<Rightarrow> (string \<times> string) set \<Rightarrow> items" where
  "gen_in_network_items parser code_filter = gen_in_network_loop ObjectBuilder parser code_filter"

text \<open>
  Modelled from the spec: the events the tokenizer gives for a JSON value, which is not
  among the source files (ijson). The prefix of an array's elements ends with
  \<^verbatim>\<open>.item\<close>, that of a member value with the key; a scalar is one event, a container a
  start event, its contents and an end event, each member value after a \<^verbatim>\<open>map_key\<close>.
\<close>

definition sub_prefix :: "string \<Rightarrow> string \<Rightarrow> string" where
  "sub_prefix prefix k = (if prefix = [] then k else prefix @ ''.'' @ k)"

fun scalar_event :: "scalar \<Rightarrow> ev_kind" where
  "scalar_event SNull = Null"
| "scalar_event (SBool b) = Boolean"
| "scalar_event (SInt i) = Number"
| "scalar_event (SFloat r) = Number"
| "scalar_event (SStr s) = String"

fun events_of :: "string \<Rightarrow> json \<Rightarrow> event list" where
  "events_of prefix (Sc s) = [(prefix, scalar_event s, s)]"
| "events_of prefix (Arr xs) =
     (prefix, StartArray, SNull)
       # concat (map (events_of (sub_prefix prefix ''item'')) xs) @ [(prefix, EndArray, SNull)]"
| "events_of prefix (Obj kvs) =
     (prefix, StartMap, SNull)
       # concat (map (\<lambda>(k, x). (prefix, MapKey, SStr k) # events_of (sub_prefix prefix k) x) kvs)
       @ [(prefix, EndMap, SNull)]"

text \<open>
  A JSON value as a Python program holds it: the keys of every dict are distinct.
\<close>

fun wf_json :: "json \<Rightarrow> bool" where
  "wf_json (Sc s) = True"
| "wf_json (Arr xs) = list_all wf_json xs"
| "wf_json (Obj kvs) = (distinct (map fst kvs) \<and> list_all (\<lambda>kv. wf_json (snd kv)) kvs)"

text \<open>
  The condition under which \<^verbatim>\<open>skip_item_by_code\<close> skips an item, read on the whole item:
  a code filter is there, code and code type are both true and the pair is not in the
  filter; or the arrangement is true and is not \<^verbatim>\<open>'ffs'\<close>.
\<close>

definition early_skipped :: "(string \<times> string) set \<Rightarrow> dict \<Rightarrow> bool" where
  "early_skipped code_filter d =
     ((code_filter \<noteq> {} \<and> truthy (dict_get d ''billing_code'')
         \<and> truthy (dict_get d ''billing_code_type'')
         \<and> not_in_filter (dict_get d ''billing_code_type'') (dict_get d ''billing_code'')
               code_filter = Inr True)
      \<or> (truthy (dict_get d ''negotiation_arrangement'')
         \<and> dict_get d ''negotiation_arrangement'' \<noteq> Sc (SStr ''ffs'')))"

fun item_skipped :: "(string \<times> string) set \<Rightarrow> json \<Rightarrow> bool" where
  "item_skipped code_filter (Obj d) = early_skipped code_filter d"
| "item_skipped code_filter x = False"

text \<open>
  An in-network item of the input grammar: an object whose \<^verbatim>\<open>billing_code_type\<close>,
  \<^verbatim>\<open>billing_code\<close> and \<^verbatim>\<open>negotiation_arrangement\<close>, where present, are scalars.
\<close>

fun is_scalar :: "json \<Rightarrow> bool" where
  "is_scalar (Sc s) = True"
| "is_scalar x = False"

definition special_keys :: "string list" where
  "special_keys = [''billing_code_type'', ''billing_code'', ''negotiation_arrangement'']"

fun mrf_item :: "json \<Rightarrow> bool" where
  "mrf_item (Obj d) =
     (wf_json (Obj d) \<and> list_all (\<lambda>kv. fst kv \<in> set special_keys \<longrightarrow> is_scalar (snd kv)) d)"
| "mrf_item x = False"

text \<open>
  The key the builder holds after the events of a value: the last \<^verbatim>\<open>map_key\<close> among them,
  or the one it held before.
\<close>

fun final_key :: "json \<Rightarrow> string option \<Rightarrow> string option" where
  "final_key (Sc s) k = k"
| "final_key (Arr xs) k = fold final_key xs k"
| "final_key (Obj kvs) k = fold (\<lambda>kv k'. final_key (snd kv) (Some (fst kv))) kvs k"

subsection \<open>The builder inside an item\<close>

text \<open>
  While \<^verbatim>\<open>gen_in_network_items\<close> is inside the array of items, its builder has no value
  assigned by \<^verbatim>\<open>initial_set\<close> but the array, and nothing detached: \<open>inside fs k\<close> is that
  builder with the frames \<open>fs\<close> and the key \<open>k\<close>. A frame is \<open>ready\<close> for a value when it
  is a list, or a dict and a key is set.
\<close>

definition inside :: "frame list \<Rightarrow> string option \<Rightarrow> builder" where
  "inside fs k = \<lparr>bvalue = None, frames = fs, detached = 0, initial = True, bkey = k\<rparr>"

fun ready :: "frame \<Rightarrow> string option \<Rightarrow> bool" where
  "ready (OpenArr xs slot) k = True"
| "ready (OpenMap kvs slot) k = (k \<noteq> None)"

text \<open>
  An item at which \<^verbatim>\<open>skip_item_by_code\<close> does nothing, and the frames of a builder that
  is inside such an item, below a key of the item that is not one of the three keys
  \<^verbatim>\<open>skip_item_by_code\<close> reads.
\<close>

definition quiet_item :: "(string \<times> string) set \<Rightarrow> dict \<Rightarrow> bool" where
  "quiet_item code_filter d =
     (\<not> early_skipped code_filter d
      \<and> list_all (\<lambda>kv. fst kv \<in> set special_keys \<longrightarrow> is_scalar (snd kv)) d)"

definition in_item :: "(string \<times> string) set \<Rightarrow> frame list \<Rightarrow> bool" where
  "in_item code_filter fs =
     (\<exists>d k0 inner. fs = inner @ [OpenMap d None, OpenArr [] None] \<and> quiet_item code_filter d
        \<and> k0 \<notin> set special_keys \<and> (inner \<noteq> [] \<longrightarrow> frame_slot (last inner) = Some k0))"

definition at_value :: "(string \<times> string) set \<Rightarrow> frame list \<Rightarrow> string option \<Rightarrow> bool" where
  "at_value code_filter fs k =
     (\<exists>d k0 inner. fs = inner @ [OpenMap d None, OpenArr [] None] \<and> quiet_item code_filter d
        \<and> k0 \<notin> set special_keys
        \<and> (if inner = [] then k = Some k0
            else frame_slot (last inner) = Some k0 \<and> ready (hd inner) k))"

text \<open>
  The condition of the specification, in its words, to be compared with \<open>item_skipped\<close>:
  (a) a code filter is configured and the pair
  \<^verbatim>\<open>(billing_code_type, str(billing_code))\<close> of the item is not in it, or (b) the
  \<^verbatim>\<open>negotiation_arrangement\<close> of the item is present and is not \<^verbatim>\<open>"ffs"\<close>.
\<close>

definition spec_item_skipped :: "(string \<times> string) set \<Rightarrow> dict \<Rightarrow> bool" where
  "spec_item_skipped code_filter d =
     ((code_filter \<noteq> {}
         \<and> not_in_filter (dict_get d ''billing_code_type'') (dict_get d ''billing_code'')
               code_filter = Inr True)
      \<or> (''negotiation_arrangement'' \<in> fst ` set d
         \<and> dict_get d ''negotiation_arrangement'' \<noteq> Sc (SStr ''ffs'')))"

section \<open>The provider references\<close>

text \<open>
  The loop of \<^verbatim>\<open>gen_references\<close>, with its builder: the references it yields, up to its
  return or to the exception it raises, and what it leaves of the parser.
\<close>

fun gen_references_loop :: "builder \<Rightarrow> parser \<Rightarrow> items \<times> parser" where
  "gen_references_loop b [] = ([], [])"
| "gen_references_loop b (Inl e # parser) = ([Inl e], [])"
| "gen_references_loop b (Inr (prefix, event, v) # parser) =
     (case builder_event b event v of
        Inl e \<Rightarrow> ([Inl (in_generator e)], [])
      | Inr b1 \<Rightarrow>
          if (prefix, event) = (''provider_references.item'', EndMap) then
            (case value_pop b1 of
               Inl e \<Rightarrow> ([Inl (in_generator e)], [])
             | Inr (reference, b2) \<Rightarrow>
                 (case gen_references_loop b2 parser of
                    (references, rest) \<Rightarrow> (Inr reference # references, rest)))
          else if (prefix, event) = (''provider_references'', EndArray) then ([], parser)
          else gen_references_loop b1 parser)"

definition gen_references :: "parser \<Rightarrow> items \<times> parser" where
  "gen_references parser = gen_references_loop ObjectBuilder parser"

text \<open>
  What is outside the program: \<^verbatim>\<open>urlparse\<close> of the standard library;
  \<open>tokens\<close>, what \<^verbatim>\<open>JSONOpen.__enter__\<close> and \<^verbatim>\<open>ijson.parse\<close> give for an input source
  (opening it twice gives the same events); and \<open>fetch\<close>, what
  \<^verbatim>\<open>fetch_remote_reference\<close> returns for the \<^verbatim>\<open>location\<close> of a reference, \<open>None\<close> when it
  raises (a status other than 200, a failed connection, a body that is not JSON).
\<close>

record world =
  urlparse :: "string \<Rightarrow> parsed_url"
  tokens :: "jsonopen \<Rightarrow> parser"
  fetch :: "json \<Rightarrow> json option"

text \<open>
  The keys of the reference map are the values of \<^verbatim>\<open>provider_group_id\<close>. As keys of a
  \<^verbatim>\<open>dict\<close>, \<^verbatim>\<open>True\<close> is \<^verbatim>\<open>1\<close> and \<^verbatim>\<open>False\<close> is \<^verbatim>\<open>0\<close>; a list or a dict cannot be hashed.
  A float is equal to an integer of the same value, which the model of floats does not
  decide: \<open>Unmodelled\<close>.
\<close>

datatype hashable = HNone | HInt int | HStr string

fun py_hash :: "json \<Rightarrow> error + hashable" where
  "py_hash (Sc SNull) = Inr HNone"
| "py_hash (Sc (SBool b)) = Inr (HInt (if b then 1 else 0))"
| "py_hash (Sc (SInt i)) = Inr (HInt i)"
| "py_hash (Sc (SFloat r)) = Inl Unmodelled"
| "py_hash (Sc (SStr s)) = Inr (HStr s)"
| "py_hash (Arr xs) = Inl TypeError"
| "py_hash (Obj kvs) = Inl TypeError"

type_synonym reference_map = "(hashable \<times> json) list"

text \<open>
  The loop of \<^verbatim>\<open>make_reference_map\<close> over the references: the inline references are
  processed and kept when they are true, those with a \<^verbatim>\<open>location\<close> are put in the queue.
  The loop has no \<^verbatim>\<open>await\<close>: no worker runs before it is over.
\<close>

fun collect_references ::
  "items \<Rightarrow> string set \<Rightarrow> error + (json list \<times> (json \<times> json) list)" where
  "collect_references [] npi_filter = Inr ([], [])"
| "collect_references (Inl e # references) npi_filter = Inl e"
| "collect_references (Inr reference # references) npi_filter =
     (case py_get reference ''location'' of
        Inl e \<Rightarrow> Inl e
      | Inr url \<Rightarrow>
          if truthy url then
            (case get_item reference ''provider_group_id'' of
               Inl e \<Rightarrow> Inl e
             | Inr group_id \<Rightarrow>
                 (case collect_references references npi_filter of
                    Inl e \<Rightarrow> Inl e
                  | Inr (processed_references, queue) \<Rightarrow>
                      Inr (processed_references, (url, group_id) # queue)))
          else
            (case process_reference reference npi_filter of
               Inl e \<Rightarrow> Inl e
             | Inr processed \<Rightarrow>
                 (case collect_references references npi_filter of
                    Inl e \<Rightarrow> Inl e
                  | Inr (processed_references, queue) \<Rightarrow>
                      Inr ((case processed of None \<Rightarrow> [] | Some r \<Rightarrow> [r])
                             @ processed_references, queue))))"

text \<open>
  One work item of \<^verbatim>\<open>append_processed_remote_reference\<close>: the reference it appends, if
  any. An exception in the worker never reaches \<^verbatim>\<open>make_reference_map\<close>: an
  \<^verbatim>\<open>AssertionError\<close> is caught, any other ends the worker's task, whose result
  \<^verbatim>\<open>gather(return_exceptions=True)\<close> drops. (That the 300 workers can all end this way,
  after which \<^verbatim>\<open>queue.join()\<close> does not return, is not modelled.)
\<close>

definition remote_reference :: "world \<Rightarrow> string set \<Rightarrow> json \<times> json \<Rightarrow> json list" where
  "remote_reference w npi_filter job =
     (case job of (url, group_id) \<Rightarrow>
        (case fetch w url of
           None \<Rightarrow> []
         | Some reference \<Rightarrow>
             (case set_item reference ''provider_group_id'' group_id of
                Inl e \<Rightarrow> []
              | Inr reference' \<Rightarrow>
                  (case process_reference reference' npi_filter of
                     Inl e \<Rightarrow> []
                   | Inr None \<Rightarrow> []
                   | Inr (Some r) \<Rightarrow> [r]))))"

text \<open>
  The dict comprehension at the end of \<^verbatim>\<open>make_reference_map\<close>: a later reference
  replaces an earlier one of the same id.
\<close>

fun reference_dict :: "reference_map \<Rightarrow> json list \<Rightarrow> error + reference_map" where
  "reference_dict m [] = Inr m"
| "reference_dict m (reference # processed_references) =
     (case get_item reference ''provider_group_id'' of
        Inl e \<Rightarrow> Inl e
      | Inr group_id \<Rightarrow>
          (case get_item reference ''provider_groups'' of
             Inl e \<Rightarrow> Inl e
           | Inr groups \<Rightarrow>
               (case py_hash group_id of
                  Inl e \<Rightarrow> Inl e
                | Inr k \<Rightarrow> reference_dict (AList.update k groups m) processed_references)))"

text \<open>
  \<^verbatim>\<open>make_reference_map\<close>. The workers append in the order in which their fetches
  complete, which the program does not determine: the model takes the order of the
  queue.
\<close>

definition make_reference_map :: "world \<Rightarrow> items \<Rightarrow> string set \<Rightarrow> error + reference_map" where
  "make_reference_map w references npi_filter =
     (case collect_references references npi_filter of
        Inl e \<Rightarrow> Inl e
      | Inr (processed_references, queue) \<Rightarrow>
          reference_dict []
            (processed_references @ concat (map (remote_reference w npi_filter) queue)))"

text \<open>
  \<^verbatim>\<open>peek\<close> reads one element of the generator: the result is the element, \<open>None\<close> when the
  generator is exhausted, and what the generator has left. The generator \<^verbatim>\<open>peek\<close>
  returns is \<open>chained\<close>: the element again, then the others.
\<close>

fun peek :: "parser \<Rightarrow> error + (event option \<times> parser)" where
  "peek [] = Inr (None, [])"
| "peek (Inl e # gen) = Inl e"
| "peek (Inr peeked # gen) = Inr (Some peeked, gen)"

fun chained :: "event option \<Rightarrow> parser \<Rightarrow> parser" where
  "chained None gen = gen"
| "chained (Some peeked) gen = Inr peeked # gen"

text \<open>
  \<^verbatim>\<open>_get_reference_map\<close>, which \<^verbatim>\<open>get_reference_map\<close> runs: the map, \<open>None\<close> when the file
  has no references, and what is left of the parser it was given (the generator that
  \<^verbatim>\<open>peek\<close> returns reads from it).
\<close>

definition get_reference_map ::
  "world \<Rightarrow> parser \<Rightarrow> string set \<Rightarrow> error + (reference_map option \<times> parser)" where
  "get_reference_map w parser npi_filter =
     (case peek parser of
        Inl e \<Rightarrow> Inl e
      | Inr (peeked, gen) \<Rightarrow>
          if peeked = Some (''provider_references'', StartArray, SNull) then
            (case gen_references (chained peeked gen) of
               (references, rest) \<Rightarrow>
                 (case make_reference_map w references npi_filter of
                    Inl e \<Rightarrow> Inl e
                  | Inr m \<Rightarrow> Inr (Some m, rest)))
          else
            (case ffwd (chained peeked gen) (Some []) None (Some ''provider_references'') of
               Inl e \<Rightarrow> if e = StopIteration then Inr (None, []) else Inl e
             | Inr parser' \<Rightarrow>
                 (case gen_references parser' of
                    (references, rest) \<Rightarrow>
                      (case make_reference_map w references npi_filter of
                         Inl e \<Rightarrow> Inl e
                       | Inr m \<Rightarrow> Inr (Some m, rest)))))"

section \<open>Swapping the references\<close>

text \<open>
  The loop of \<^verbatim>\<open>swap_references\<close> over the references of a rate:
  \<^verbatim>\<open>groups.extend(reference_map.get(reference, []))\<close>.
\<close>

fun extend_groups :: "reference_map \<Rightarrow> json \<Rightarrow> json list \<Rightarrow> error + json" where
  "extend_groups m groups [] = Inr groups"
| "extend_groups m groups (reference # references) =
     (case py_hash reference of
        Inl e \<Rightarrow> Inl e
      | Inr k \<Rightarrow>
          (case py_iter (case map_of m k of None \<Rightarrow> Arr [] | Some g \<Rightarrow> g) of
             Inl e \<Rightarrow> Inl e
           | Inr addl_groups \<Rightarrow>
               (case groups of
                  Arr gs \<Rightarrow> extend_groups m (Arr (gs @ addl_groups)) references
                | _ \<Rightarrow> Inl TypeError)))"

text \<open>\<^verbatim>\<open>rate.pop(key)\<close> on a dict.\<close>

fun py_pop :: "json \<Rightarrow> string \<Rightarrow> error + json" where
  "py_pop (Obj d) k = (if k \<in> fst ` set d then Inr (Obj (AList.delete k d)) else Inl KeyError)"
| "py_pop x k = Inl TypeError"

text \<open>The body of the loop of \<^verbatim>\<open>swap_references\<close> over the rates of an item: the rate after it.\<close>

definition swap_rate :: "reference_map \<Rightarrow> json \<Rightarrow> error + json" where
  "swap_rate reference_map rate =
     (case py_get rate ''provider_references'' of
        Inl e \<Rightarrow> Inl e
      | Inr references \<Rightarrow>
          if \<not> truthy references then Inr rate
          else
     (case py_get_default rate ''provider_groups'' (Arr []) of
        Inl e \<Rightarrow> Inl e
      | Inr groups \<Rightarrow>
     (case py_iter references of
        Inl e \<Rightarrow> Inl e
      | Inr refs \<Rightarrow>
     (case extend_groups reference_map groups refs of
        Inl e \<Rightarrow> Inl e
      | Inr groups' \<Rightarrow>
     (case py_pop rate ''provider_references'' of
        Inl e \<Rightarrow> Inl e
      | Inr rate' \<Rightarrow> set_item rate' ''provider_groups'' groups')))))"

text \<open>
  The body of the loop over the items: the item when it is yielded. The groups of the
  reference map are shared by the rates that refer to them; \<^verbatim>\<open>process_group\<close> changes
  them in place later, to what they already are (they went through it with the same
  filter when the map was made), so that sharing them is not seen.
\<close>

definition swap_item :: "reference_map \<Rightarrow> json \<Rightarrow> error + json option" where
  "swap_item reference_map item =
     (case get_item item ''negotiated_rates'' of
        Inl e \<Rightarrow> Inl e
      | Inr rates \<Rightarrow>
     (case py_iter rates of
        Inl e \<Rightarrow> Inl e
      | Inr rs \<Rightarrow>
     (case mapE (swap_rate reference_map) rs of
        Inl e \<Rightarrow> Inl e
      | Inr rs' \<Rightarrow>
     (case mapE (\<lambda>rate. case py_get rate ''provider_groups'' of
                           Inl e \<Rightarrow> Inl e
                         | Inr g \<Rightarrow> Inr (rate, truthy g)) rs' of
        Inl e \<Rightarrow> Inl e
      | Inr marked \<Rightarrow>
          (let kept = map fst (filter snd marked) in
           case set_item item ''negotiated_rates'' (Arr kept) of
             Inl e \<Rightarrow> Inl e
           | Inr item' \<Rightarrow> Inr (if kept \<noteq> [] then Some item' else None))))))"

fun swap_references_loop :: "items \<Rightarrow> reference_map \<Rightarrow> items" where
  "swap_references_loop [] reference_map = []"
| "swap_references_loop (Inl e # in_network_items) reference_map = [Inl e]"
| "swap_references_loop (Inr item # in_network_items) reference_map =
     (case swap_item reference_map item of
        Inl e \<Rightarrow> [Inl e]
      | Inr None \<Rightarrow> swap_references_loop in_network_items reference_map
      | Inr (Some item') \<Rightarrow> Inr item' # swap_references_loop in_network_items reference_map)"

text \<open>\<^verbatim>\<open>swap_references\<close>: \<^verbatim>\<open>not reference_map\<close> holds of \<^verbatim>\<open>None\<close> and of the empty dict.\<close>

definition swap_references :: "items \<Rightarrow> reference_map option \<Rightarrow> items" where
  "swap_references in_network_items reference_map =
     (case reference_map of
        None \<Rightarrow> in_network_items
      | Some m \<Rightarrow> if m = [] then in_network_items else swap_references_loop in_network_items m)"

section \<open>The flattener\<close>

text \<open>
  \<^verbatim>\<open>start_parser\<close> is a generator: the exception of \<^verbatim>\<open>JSONOpen\<close> is raised when it is
  first read.
\<close>

definition start_parser :: "world \<Rightarrow> string \<Rightarrow> parser" where
  "start_parser w filename =
     (case JSONOpen_init filename (urlparse w filename) of
        Inl e \<Rightarrow> [Inl e]
      | Inr f \<Rightarrow> tokens w f)"

text \<open>
  The class \<^verbatim>\<open>Content\<close>. \<^verbatim>\<open>__init__\<close> sets the first three attributes; the others are
  set by \<^verbatim>\<open>start_conn\<close>, which \<^verbatim>\<open>json_mrf_to_csv\<close> calls next, and hold nothing of
  interest before.
\<close>

record content =
  c_file :: string
  c_npi_filter :: "string set"
  c_code_filter :: "(string \<times> string) set"
  c_parser :: parser
  c_plan :: json
  c_ref_map :: "reference_map option"

definition Content :: "string \<Rightarrow> (string \<times> string) set \<Rightarrow> string set \<Rightarrow> content" where
  "Content file code_filter npi_filter =
     \<lparr>c_file = file, c_npi_filter = npi_filter, c_code_filter = code_filter,
      c_parser = [], c_plan = Sc SNull, c_ref_map = None\<rparr>"

definition start_conn :: "world \<Rightarrow> content \<Rightarrow> error + content" where
  "start_conn w self =
     (case get_plan (start_parser w (c_file self)) of
        Inl e \<Rightarrow> Inl e
      | Inr (plan, parser) \<Rightarrow>
          (case get_reference_map w parser (c_npi_filter self) of
             Inl e \<Rightarrow> Inl e
           | Inr (ref_map, parser') \<Rightarrow>
               Inr (self\<lparr>c_parser := parser', c_plan := plan, c_ref_map := ref_map\<rparr>)))"

text \<open>
  \<^verbatim>\<open>prepare_in_network\<close> drops the generator \<^verbatim>\<open>peek\<close> returns: the element it has read is
  lost to \<^verbatim>\<open>self.parser\<close>.
\<close>

definition prepare_in_network :: "world \<Rightarrow> content \<Rightarrow> error + content" where
  "prepare_in_network w self =
     (case peek (c_parser self) of
        Inl e \<Rightarrow> Inl e
      | Inr (peeked, gen) \<Rightarrow>
          if peeked = Some ([], EndMap, SNull) \<or> peeked = None then
            (case ffwd (start_parser w (c_file self)) (Some []) None (Some ''in_network'') of
               Inl e \<Rightarrow> Inl e
             | Inr parser \<Rightarrow> Inr (self\<lparr>c_parser := parser\<rparr>))
          else Inr (self\<lparr>c_parser := gen\<rparr>))"

text \<open>
  \<^verbatim>\<open>in_network_items\<close> returns a generator: \<^verbatim>\<open>prepare_in_network\<close> runs when it is
  called, the three generators when the items are read.
\<close>

definition in_network_items :: "world \<Rightarrow> content \<Rightarrow> error + items" where
  "in_network_items w self =
     (case prepare_in_network w self of
        Inl e \<Rightarrow> Inl e
      | Inr self' \<Rightarrow>
          Inr (process_in_network
                 (swap_references (gen_in_network_items (c_parser self') (c_code_filter self'))
                    (c_ref_map self'))
                 (c_npi_filter self')))"

text \<open>
  The loop of \<^verbatim>\<open>json_mrf_to_csv\<close> over the processed items. The items do not depend on
  the output directory, so that reading them all before the first is written, as the
  model does, writes what the program writes, which reads one and writes it in turn.
\<close>

fun write_items :: "items \<Rightarrow> json \<Rightarrow> fs \<Rightarrow> error option \<times> fs" where
  "write_items [] filename_hash s = (None, s)"
| "write_items (Inl e # processed_items) filename_hash s = (Some e, s)"
| "write_items (Inr item # processed_items) filename_hash s =
     (case write_in_network_item item filename_hash s of
        (Some e, s') \<Rightarrow> (Some e, s')
      | (None, s') \<Rightarrow> write_items processed_items filename_hash s')"

text \<open>
  \<^verbatim>\<open>json_mrf_to_csv\<close>, on the output directory \<open>s\<close>: the exception that ends it, if any,
  and the directory as it leaves it. \<open>file_arg\<close> is the argument \<^verbatim>\<open>file\<close>, \<open>None\<close> by
  default.
\<close>

definition json_mrf_to_csv ::
  "world \<Rightarrow> string \<Rightarrow> string option \<Rightarrow> (string \<times> string) set \<Rightarrow> string set \<Rightarrow> fs
     \<Rightarrow> error option \<times> fs" where
  "json_mrf_to_csv w url file_arg code_filter npi_filter s =
     (let file = (case file_arg of None \<Rightarrow> url | Some f \<Rightarrow> f) in
      case filename_hasher file of
        Inl e \<Rightarrow> (Some e, s)
      | Inr filename_hash \<Rightarrow>
     (case start_conn w (Content file code_filter npi_filter) of
        Inl e \<Rightarrow> (Some e, s)
      | Inr content \<Rightarrow>
     (case in_network_items w content of
        Inl e \<Rightarrow> (Some e, s)
      | Inr processed_items \<Rightarrow>
     (case make_dir s of
        (Some e, s1) \<Rightarrow> (Some e, s1)
      | (None, s1) \<Rightarrow>
     (case write_items processed_items (Sc (SInt filename_hash)) s1 of
        (Some e, s2) \<Rightarrow> (Some e, s2)
      | (None, s2) \<Rightarrow>
          write_plan (c_plan content) (Sc (SInt filename_hash)) file url s2)))))"

text \<open>
  The tables of the plan and the rows among the lines written (the others are headers).
\<close>

definition plan_table :: "table \<Rightarrow> bool" where
  "plan_table t = (t = Files \<or> t = Plans \<or> t = PlansFiles)"

fun is_row :: "table \<times> line \<Rightarrow> bool" where
  "is_row (t, Row cells) = True"
| "is_row (t, Header names) = False"

section \<open>An example\<close>

text \<open>
  A small file in the layout of the input grammar, with one inline provider reference
  and two in-network items, and the world in which the tokenizer fails on it after \<open>n\<close>
  events, as it does on a file that is cut short. Nothing remote is fetched.
\<close>

definition example_mrf :: json where
  "example_mrf =
     Obj [(''reporting_entity_name'', Sc (SStr ''ACME'')),
          (''version'', Sc (SStr ''1.0'')),
          (''provider_references'',
             Arr [Obj [(''provider_group_id'', Sc (SInt 1)),
                       (''provider_groups'',
                          Arr [Obj [(''npi'', Arr [Sc (SInt 1111111111)]),
                                    (''tin'', Obj [(''type'', Sc (SStr ''ein'')),
                                                   (''value'', Sc (SStr ''12-3456789''))])]])]]),
          (''in_network'',
             Arr [Obj [(''billing_code_type'', Sc (SStr ''CPT'')),
                       (''billing_code_type_version'', Sc (SStr ''2022'')),
                       (''billing_code'', Sc (SStr ''99213'')),
                       (''negotiation_arrangement'', Sc (SStr ''ffs'')),
                       (''negotiated_rates'',
                          Arr [Obj [(''provider_references'', Arr [Sc (SInt 1)]),
                                    (''negotiated_prices'',
                                       Arr [Obj [(''negotiated_rate'',
                                                  Sc (SFloat ''100.0''))]])]])],
                  Obj [(''billing_code_type'', Sc (SStr ''CPT'')),
                       (''billing_code_type_version'', Sc (SStr ''2022'')),
                       (''billing_code'', Sc (SStr ''99214'')),
                       (''negotiation_arrangement'', Sc (SStr ''ffs'')),
                       (''negotiated_rates'',
                          Arr [Obj [(''provider_references'', Arr [Sc (SInt 1)]),
                                    (''negotiated_prices'',
                                       Arr [Obj [(''negotiated_rate'',
                                                  Sc (SFloat ''120.0''))]])]])]])]"

definition cut_short :: "nat \<Rightarrow> world" where
  "cut_short n =
     \<lparr>urlparse = (\<lambda>u. \<lparr>url_scheme = [], url_path = u\<rparr>),
      tokens = (\<lambda>f. map Inr (take n (events_of [] example_mrf)) @ [Inl ParseError]),
      fetch = (\<lambda>u. None)\<rparr>"

definition empty_dir :: fs where
  "empty_dir = \<lparr>dir_exists = False, existing = {}, written = [], budget = 1000\<rparr>"

section \<open>Theorems\<close>

lemma ffwd_loop1_spec:
  "ffwd_loop1 parser (Some p) (Some e) = ffwd_spec parser (Some p) (Some e) None"
  by (induction parser "Some p" "Some e" rule: ffwd_loop1.induct) (auto simp: matches_def)

lemma ffwd_loop2_spec:
  "ffwd_loop2 parser (Some e) (Some v) = ffwd_spec parser None (Some e) (Some v)"
  by (induction parser "Some e" "Some v" rule: ffwd_loop2.induct)
     (auto simp: matches_def value_eq_def)

lemma ffwd_loop3_spec:
  "ffwd_loop3 parser (Some p) (Some v) = ffwd_spec parser (Some p) None (Some v)"
  by (induction parser "Some p" "Some v" rule: ffwd_loop3.induct)
     (auto simp: matches_def value_eq_def)

text \<open>
  C7 (as amended). For every event stream and every pattern in which exactly one of
  prefix, event and value is left unspecified, \<open>ffwd\<close> consumes events up to and
  including the first triple whose two specified components match, and raises
  \<open>StopIteration\<close> when the stream is exhausted before such a triple occurs.
\<close>

theorem ffwd_one_wildcard:
  assumes "wildcards to_prefix to_event to_value = 1"
  shows "ffwd parser to_prefix to_event to_value = ffwd_spec parser to_prefix to_event to_value"
proof -
  consider (v) p e where "to_prefix = Some p" "to_event = Some e" "to_value = None"
    | (p) e v where "to_prefix = None" "to_event = Some e" "to_value = Some v"
    | (e) p v where "to_prefix = Some p" "to_event = None" "to_value = Some v"
    using assms by (cases to_prefix; cases to_event; cases to_value) (auto simp: wildcards_def)
  then show ?thesis
  proof cases
    case v
    then show ?thesis
      by (simp add: ffwd_def ffwd_loop1_spec split: sum.splits)
  next
    case p
    then show ?thesis
      by (simp add: ffwd_def ffwd_loop2_spec split: sum.splits)
  next
    case e
    then show ?thesis
      by (simp add: ffwd_def ffwd_loop3_spec split: sum.splits)
  qed
qed

theorem ffwd_one_wildcard_witness:
  "wildcards (Some ''in_network.item'') (Some EndMap) None = 1
   \<and> ffwd [Inr (''in_network.item.billing_code'', String, SStr ''0000''),
            Inr (''in_network.item'', EndMap, SNull),
            Inr (''in_network'', EndArray, SNull)]
        (Some ''in_network.item'') (Some EndMap) None
       = Inr [Inr (''in_network'', EndArray, SNull)]
   \<and> ffwd [Inr (''in_network.item.billing_code'', String, SStr ''0000'')]
        (Some ''in_network.item'') (Some EndMap) None
       = Inl StopIteration"
proof -
  have w: "wildcards (Some ''in_network.item'') (Some EndMap) None = 1"
    by (simp add: wildcards_def)
  show ?thesis
    using w ffwd_one_wildcard [OF w] by (simp add: matches_def)
qed

text \<open>
  C7, as the claim states it, fails. With only the prefix specified (event and value
  both left out) the first loop compares every event name with \<^verbatim>\<open>None\<close>, so a stream
  whose first triple matches is read to its end and \<open>StopIteration\<close> is raised; with
  nothing left out no loop runs and nothing is consumed, match or not.
\<close>

theorem ffwd_two_wildcards_counterexample:
  "matches (Some ''in_network'') None None (''in_network'', StartArray, SNull)
   \<and> ffwd [Inr (''in_network'', StartArray, SNull)] (Some ''in_network'') None None
       = Inl StopIteration
   \<and> ffwd_spec [Inr (''in_network'', StartArray, SNull)] (Some ''in_network'') None None
       = Inr []
   \<and> ffwd [Inr ('''', EndMap, SNull)] (Some ''in_network'') (Some MapKey) (Some ''x'')
       = Inr [Inr ('''', EndMap, SNull)]"
  by (simp add: ffwd_def matches_def)

subsection \<open>The plan\<close>

lemma builder_event_not_InvalidMRF: "builder_event b event v \<noteq> Inl InvalidMRF"
  by (cases event)
     (auto simp: call_top_def open_container_def pop_container_def
           split: scalar.splits list.splits frame.splits option.splits)

lemma get_plan_loop_append:
  assumes "\<forall>t \<in> set pre. \<not> stops_plan (snd (snd t))"
  shows "get_plan_loop b (map Inr pre @ tail) =
     (case feed b pre of Inl e \<Rightarrow> Inl e | Inr b' \<Rightarrow> get_plan_loop b' tail)"
  using assms
proof (induction pre arbitrary: b)
  case Nil
  then show ?case by simp
next
  case (Cons t pre)
  obtain prefix event v where t: "t = (prefix, event, v)"
    by (cases t) auto
  with Cons show ?case
    by (cases "builder_event b event v") auto
qed

lemma feed_not_InvalidMRF: "feed b evs \<noteq> Inl InvalidMRF"
proof (induction evs arbitrary: b)
  case Nil
  then show ?case by simp
next
  case (Cons t evs)
  obtain prefix event v where t: "t = (prefix, event, v)"
    by (cases t) auto
  show ?case
    using Cons builder_event_not_InvalidMRF [of b event v]
    by (cases "builder_event b event v") (auto simp: t)
qed

lemma feed_snoc:
  "feed b (evs @ [(prefix, event, v)]) =
     (case feed b evs of Inl e \<Rightarrow> Inl e | Inr b' \<Rightarrow> builder_event b' event v)"
proof (induction evs arbitrary: b)
  case Nil
  then show ?case by (simp split: sum.splits)
next
  case (Cons t evs)
  obtain p' e' v' where t: "t = (p', e', v')"
    by (cases t) auto
  show ?case
    using Cons by (cases "builder_event b e' v'") (auto simp: t)
qed

lemma get_plan_loop_InvalidMRF_D:
  assumes "get_plan_loop b parser = Inl InvalidMRF"
  shows "\<exists>evs tail. parser = map Inr evs @ tail
     \<and> (tail = [] \<or> (\<exists>r. tail = Inl InvalidMRF # r))
     \<and> (\<forall>t \<in> set evs. \<not> stops_plan (snd (snd t)))
     \<and> (\<exists>b'. feed b evs = Inr b')"
  using assms
proof (induction b parser rule: get_plan_loop.induct)
  case (1 b)
  have "[] = map Inr ([] :: event list) @ ([] :: parser)" by simp
  then show ?case
    by (intro exI [of _ "[]"]) simp
next
  case (2 b e rest)
  then have e: "e = InvalidMRF" by simp
  show ?case
    by (rule exI [of _ "[]"], rule exI [of _ "Inl e # rest"]) (simp add: e)
next
  case (3 b prefix event v rest)
  from "3.prems" obtain b' where b': "builder_event b event v = Inr b'"
    using builder_event_not_InvalidMRF [of b event v]
    by (cases "builder_event b event v") auto
  from "3.prems" b' have ns: "\<not> stops_plan v"
    by (auto split: option.splits)
  with "3.prems" b' have "get_plan_loop b' rest = Inl InvalidMRF"
    by simp
  from "3.IH" [OF b' ns this] obtain evs tail b'' where IH:
    "rest = map Inr evs @ tail" "tail = [] \<or> (\<exists>r. tail = Inl InvalidMRF # r)"
    "\<forall>t \<in> set evs. \<not> stops_plan (snd (snd t))" "feed b' evs = Inr b''"
    by blast
  show ?case
    by (rule exI [of _ "(prefix, event, v) # evs"], rule exI [of _ tail])
       (use IH ns b' in simp)
qed

lemmas builder_simps = ObjectBuilder_def builder_value_def open_container_def call_top_def
  pop_container_def stops_plan_def

text \<open>
  C10. Plan extraction stops at the first event whose value is \<^verbatim>\<open>"provider_references"\<close>
  or \<^verbatim>\<open>"in_network"\<close>, whatever the event's type and prefix: the plan is what the
  builder holds after the events up to and including that one. So a plan whose
  \<^verbatim>\<open>plan_name\<close> is the string \<^verbatim>\<open>"in_network"\<close>, or an object nested in the plan that has
  such a key, ends the plan there, before the top-level key (the witness below).
\<close>

theorem get_plan_stops_at_first_value:
  assumes "\<forall>t \<in> set pre. \<not> stops_plan (snd (snd t))" and "stops_plan v"
  shows "get_plan (map Inr pre @ Inr (prefix, event, v) # rest) =
     (case feed ObjectBuilder (pre @ [(prefix, event, v)]) of
        Inl e \<Rightarrow> Inl e
      | Inr b \<Rightarrow>
          (case builder_value b of None \<Rightarrow> Inl TypeError | Some plan \<Rightarrow> Inr (plan, rest)))"
  using assms
  by (simp add: get_plan_def get_plan_loop_append feed_snoc split: sum.splits)

theorem get_plan_stops_at_first_value_witness:
  "get_plan (map Inr
      [('''', StartMap, SNull),
       ('''', MapKey, SStr ''reporting_entity_name''),
       (''reporting_entity_name'', String, SStr ''X''),
       ('''', MapKey, SStr ''plan_name'')]
     @ Inr (''plan_name'', String, SStr ''in_network'')
     # [Inr ('''', MapKey, SStr ''plan_id''), Inr (''plan_id'', String, SStr ''7''),
        Inr ('''', MapKey, SStr ''in_network''), Inr (''in_network'', StartArray, SNull)])
   = Inr (Obj [(''reporting_entity_name'', Sc (SStr ''X'')),
               (''plan_name'', Sc (SStr ''in_network''))],
          [Inr ('''', MapKey, SStr ''plan_id''), Inr (''plan_id'', String, SStr ''7''),
           Inr ('''', MapKey, SStr ''in_network''), Inr (''in_network'', StartArray, SNull)])
   \<and> get_plan (map Inr
      [('''', StartMap, SNull),
       ('''', MapKey, SStr ''meta''),
       (''meta'', StartMap, SNull)]
     @ Inr (''meta'', MapKey, SStr ''in_network'')
     # [Inr (''meta.in_network'', Boolean, SBool True), Inr (''meta'', EndMap, SNull),
        Inr ('''', MapKey, SStr ''plan_id''), Inr (''plan_id'', String, SStr ''7''),
        Inr ('''', MapKey, SStr ''in_network''), Inr (''in_network'', StartArray, SNull)])
   = Inr (Obj [(''meta'', Obj [])],
          [Inr (''meta.in_network'', Boolean, SBool True), Inr (''meta'', EndMap, SNull),
           Inr ('''', MapKey, SStr ''plan_id''), Inr (''plan_id'', String, SStr ''7''),
           Inr ('''', MapKey, SStr ''in_network''), Inr (''in_network'', StartArray, SNull)])"
proof -
  have a: "\<forall>t \<in> set [('''', StartMap, SNull),
       ('''', MapKey, SStr ''reporting_entity_name''),
       (''reporting_entity_name'', String, SStr ''X''),
       ('''', MapKey, SStr ''plan_name'')]. \<not> stops_plan (snd (snd t))"
    by (simp add: stops_plan_def)
  have b: "\<forall>t \<in> set [('''', StartMap, SNull),
       ('''', MapKey, SStr ''meta''),
       (''meta'', StartMap, SNull)]. \<not> stops_plan (snd (snd t))"
    by (simp add: stops_plan_def)
  have s: "stops_plan (SStr ''in_network'')"
    by (simp add: stops_plan_def)
  show ?thesis
    unfolding get_plan_stops_at_first_value [OF a s] get_plan_stops_at_first_value [OF b s]
    by (simp add: builder_simps)
qed

text \<open>
  C8 (as amended). \<open>get_plan\<close> raises \<open>InvalidMRF\<close> exactly when the event stream ends
  (or its source raises \<open>InvalidMRF\<close>, as \<^verbatim>\<open>JSONOpen\<close> does on a bad suffix) before any
  event whose value is \<^verbatim>\<open>"provider_references"\<close> or \<^verbatim>\<open>"in_network"\<close>, the builder having
  accepted the events before; it never looks for the plan's keys. When such an event
  comes first, the result is the object the builder folded from the events consumed so
  far.
\<close>

theorem get_plan_InvalidMRF_iff:
  "(get_plan parser = Inl InvalidMRF \<longleftrightarrow>
     (\<exists>evs tail. parser = map Inr evs @ tail
        \<and> (tail = [] \<or> (\<exists>r. tail = Inl InvalidMRF # r))
        \<and> (\<forall>t \<in> set evs. \<not> stops_plan (snd (snd t)))
        \<and> (\<exists>b. feed ObjectBuilder evs = Inr b)))
   \<and> (\<forall>pre prefix event v rest b plan.
        parser = map Inr pre @ Inr (prefix, event, v) # rest
        \<and> (\<forall>t \<in> set pre. \<not> stops_plan (snd (snd t))) \<and> stops_plan v
        \<and> feed ObjectBuilder (pre @ [(prefix, event, v)]) = Inr b
        \<and> builder_value b = Some plan
        \<longrightarrow> get_plan parser = Inr (plan, rest))"
proof (intro conjI iffI allI impI)
  assume "get_plan parser = Inl InvalidMRF"
  then show "\<exists>evs tail. parser = map Inr evs @ tail
        \<and> (tail = [] \<or> (\<exists>r. tail = Inl InvalidMRF # r))
        \<and> (\<forall>t \<in> set evs. \<not> stops_plan (snd (snd t)))
        \<and> (\<exists>b. feed ObjectBuilder evs = Inr b)"
    unfolding get_plan_def by (rule get_plan_loop_InvalidMRF_D)
next
  assume "\<exists>evs tail. parser = map Inr evs @ tail
        \<and> (tail = [] \<or> (\<exists>r. tail = Inl InvalidMRF # r))
        \<and> (\<forall>t \<in> set evs. \<not> stops_plan (snd (snd t)))
        \<and> (\<exists>b. feed ObjectBuilder evs = Inr b)"
  then obtain evs tail b where h: "parser = map Inr evs @ tail"
     "tail = [] \<or> (\<exists>r. tail = Inl InvalidMRF # r)"
     "\<forall>t \<in> set evs. \<not> stops_plan (snd (snd t))" "feed ObjectBuilder evs = Inr b"
    by blast
  from h(2) have "get_plan_loop b tail = Inl InvalidMRF" by auto
  with h show "get_plan parser = Inl InvalidMRF"
    by (simp add: get_plan_def get_plan_loop_append)
next
  fix pre prefix event v rest b plan
  assume h: "parser = map Inr pre @ Inr (prefix, event, v) # rest
        \<and> (\<forall>t \<in> set pre. \<not> stops_plan (snd (snd t))) \<and> stops_plan v
        \<and> feed ObjectBuilder (pre @ [(prefix, event, v)]) = Inr b
        \<and> builder_value b = Some plan"
  then show "get_plan parser = Inr (plan, rest)"
    by (auto simp: get_plan_def get_plan_loop_append feed_snoc split: sum.splits)
qed

theorem get_plan_InvalidMRF_iff_witness:
  "get_plan (map Inr [('''', StartMap, SNull), ('''', MapKey, SStr ''plan_name''),
      (''plan_name'', String, SStr ''P''), ('''', EndMap, SNull)]) = Inl InvalidMRF"
proof -
  have "\<exists>evs tail. map Inr [('''', StartMap, SNull), ('''', MapKey, SStr ''plan_name''),
      (''plan_name'', String, SStr ''P''), ('''', EndMap, SNull)] = map Inr evs @ tail
        \<and> (tail = [] \<or> (\<exists>r. tail = Inl InvalidMRF # r))
        \<and> (\<forall>t \<in> set evs. \<not> stops_plan (snd (snd t)))
        \<and> (\<exists>b. feed ObjectBuilder evs = Inr b)"
    by (rule exI [of _ "[('''', StartMap, SNull), ('''', MapKey, SStr ''plan_name''),
      (''plan_name'', String, SStr ''P''), ('''', EndMap, SNull)]"], rule exI [of _ "[]"])
       (simp add: builder_simps)
  then show ?thesis
    using get_plan_InvalidMRF_iff by blast
qed

text \<open>
  C8, as the claim states it, fails: the MRF \<^verbatim>\<open>{"in_network": []}\<close> has none of the eight
  plan keys, and \<open>get_plan\<close> returns the empty plan for it instead of raising.
\<close>

theorem get_plan_missing_keys_counterexample:
  "get_plan (map Inr [('''', StartMap, SNull), ('''', MapKey, SStr ''in_network''),
      (''in_network'', StartArray, SNull), (''in_network'', EndArray, SNull),
      ('''', EndMap, SNull)])
   = Inr (Obj [], map Inr [(''in_network'', StartArray, SNull),
      (''in_network'', EndArray, SNull), ('''', EndMap, SNull)])"
  by (simp add: get_plan_def builder_simps)

subsection \<open>The input source\<close>

lemma endswith_iff: "endswith s suf \<longleftrightarrow> (\<exists>pre. s = pre @ suf)"
proof
  assume "endswith s suf"
  then have "s = take (length s - length suf) s @ suf"
    by (metis append_take_drop_id endswith_def)
  then show "\<exists>pre. s = pre @ suf" ..
next
  assume "\<exists>pre. s = pre @ suf"
  then show "endswith s suf"
    by (auto simp: endswith_def)
qed

text \<open>
  C3 (as amended). Suffix recognition by \<^verbatim>\<open>JSONOpen\<close> of \<^verbatim>\<open>mrfutils/helpers.py\<close> succeeds
  exactly when the lower-cased combined suffix ends with \<^verbatim>\<open>.json.gz\<close>, \<^verbatim>\<open>.json\<close> or
  \<^verbatim>\<open>.zip\<close>; by \<^verbatim>\<open>JSONOpen\<close> of \<^verbatim>\<open>processors/mrfutils.py\<close> exactly when the combined suffix
  is \<^verbatim>\<open>.json.gz\<close> or \<^verbatim>\<open>.json\<close> as written. Each raises \<open>InvalidMRF\<close> otherwise.
\<close>

theorem JSONOpen_suffix_recognition:
  "((\<exists>j. helpers_JSONOpen_init name u = Inr j) \<longleftrightarrow>
      (\<exists>pre ext. ext \<in> {''.json.gz'', ''.json'', ''.zip''}
         \<and> py_lower (combined_suffix (url_path u)) = pre @ ext))
   \<and> (helpers_JSONOpen_init name u = Inl InvalidMRF \<longleftrightarrow>
      \<not> (\<exists>pre ext. ext \<in> {''.json.gz'', ''.json'', ''.zip''}
         \<and> py_lower (combined_suffix (url_path u)) = pre @ ext))
   \<and> ((\<exists>j. JSONOpen_init name u = Inr j) \<longleftrightarrow>
      combined_suffix (url_path u) \<in> {''.json.gz'', ''.json''})
   \<and> (JSONOpen_init name u = Inl InvalidMRF \<longleftrightarrow>
      combined_suffix (url_path u) \<notin> {''.json.gz'', ''.json''})"
proof -
  have e: "(\<exists>pre ext. ext \<in> {''.json.gz'', ''.json'', ''.zip''} \<and> s = pre @ ext) \<longleftrightarrow>
      endswith s ''.json.gz'' \<or> endswith s ''.json'' \<or> endswith s ''.zip''" for s
    unfolding endswith_iff by blast
  show ?thesis
    unfolding e by (simp add: helpers_JSONOpen_init_def JSONOpen_init_def Let_def)
qed

theorem JSONOpen_suffix_recognition_witness:
  "helpers_JSONOpen_init ''https://host/dir/Plan.Rates.JSON.GZ''
      \<lparr>url_scheme = ''https'', url_path = ''/dir/Plan.Rates.JSON.GZ''\<rparr>
     \<noteq> Inl InvalidMRF
   \<and> JSONOpen_init ''dir/plan.txt'' \<lparr>url_scheme = '''', url_path = ''dir/plan.txt''\<rparr>
     = Inl InvalidMRF"
proof -
  have a: "py_lower (combined_suffix (url_path \<lparr>url_scheme = ''https'', url_path = ''/dir/Plan.Rates.JSON.GZ''\<rparr>))
     = ''.rates'' @ ''.json.gz''"
    by code_simp
  have b: "combined_suffix (url_path \<lparr>url_scheme = '''', url_path = ''dir/plan.txt''\<rparr>)
     \<notin> {''.json.gz'', ''.json''}"
    by code_simp
  from a have "\<exists>pre ext. ext \<in> {''.json.gz'', ''.json'', ''.zip''}
     \<and> py_lower (combined_suffix (url_path \<lparr>url_scheme = ''https'', url_path = ''/dir/Plan.Rates.JSON.GZ''\<rparr>))
       = pre @ ext"
    by blast
  with b JSONOpen_suffix_recognition
     [of "''https://host/dir/Plan.Rates.JSON.GZ''"
         "\<lparr>url_scheme = ''https'', url_path = ''/dir/Plan.Rates.JSON.GZ''\<rparr>"]
    JSONOpen_suffix_recognition
     [of "''dir/plan.txt''" "\<lparr>url_scheme = '''', url_path = ''dir/plan.txt''\<rparr>"]
  show ?thesis by auto
qed

text \<open>
  C3, as the claim states it, fails on \<^verbatim>\<open>JSONOpen\<close> of \<^verbatim>\<open>processors/mrfutils.py\<close>, the
  input source of \<^verbatim>\<open>json_mrf_to_csv\<close>: it refuses \<^verbatim>\<open>.zip\<close>, and \<^verbatim>\<open>.JSON\<close> in upper case.
\<close>

theorem JSONOpen_zip_counterexample:
  "combined_suffix ''/dir/plan.zip'' = ''.zip''
   \<and> JSONOpen_init ''/dir/plan.zip'' \<lparr>url_scheme = '''', url_path = ''/dir/plan.zip''\<rparr>
       = Inl InvalidMRF
   \<and> combined_suffix ''/dir/PLAN.JSON'' = ''.JSON''
   \<and> JSONOpen_init ''/dir/PLAN.JSON'' \<lparr>url_scheme = '''', url_path = ''/dir/PLAN.JSON''\<rparr>
       = Inl InvalidMRF"
  by code_simp

subsection \<open>Provider groups\<close>

lemma all_of_as_str_strs [simp]: "all_of as_str (map (\<lambda>n. Sc (SStr n)) xs) = Some xs"
  by (induction xs) auto

lemma py_sorted_strs [simp]:
  "py_sorted (Arr (map (\<lambda>n. Sc (SStr n)) xs)) = Inr (map (\<lambda>n. Sc (SStr n)) (sort xs))"
  by (simp add: py_sorted_def)

lemma json_dumps_comp_str [simp]: "json_dumps sk \<circ> (\<lambda>n. Sc (SStr n)) = dumps_str"
  by (auto simp: fun_eq_iff)

lemma json_dumps_strs:
  "json_dumps sk (Arr (map (\<lambda>n. Sc (SStr n)) xs)) = ''['' @ join '', '' (map dumps_str xs) @ '']''"
  by simp

lemma append_hash_nonempty:
  "row \<noteq> [] \<Longrightarrow> \<exists>h. append_hash row name = Inr (AList.update name (Sc (SInt h)) row)"
  by (auto simp: append_hash_def dicthasher_def simp del: json_dumps.simps)

text \<open>
  C5 (as amended). Let a provider group have the NPI list \<open>ns\<close>, of scalars, whose
  strings are \<open>strs\<close>, and let \<open>kept\<close> be the strings that are in the NPI filter (all of
  them when the filter is empty or absent). Under a non-empty filter the group survives
  if and only if at least one of its NPIs is in the filter; under an empty one it
  always survives. The surviving group holds exactly \<open>kept\<close>, and its
  \<^verbatim>\<open>npi_numbers\<close> column is \<^verbatim>\<open>json.dumps\<close> of \<open>kept\<close> sorted ascending as strings: the quoted
  values separated by a comma and a space, between brackets.
\<close>

theorem process_group_npi_numbers:
  assumes "map_of d ''npi'' = Some (Arr ns)" and "mapE py_str ns = Inr strs"
    and "map_of d ''tin'' = Some tin"
    and "get_item tin ''type'' = Inr tin_type" and "get_item tin ''value'' = Inr tin_value"
    and "kept = (if npi_filter = {} then strs else filter (\<lambda>n. n \<in> npi_filter) strs)"
    and "survivor = Obj (AList.update ''npi'' (Arr (map (\<lambda>n. Sc (SStr n)) kept)) d)"
  shows "((\<exists>g. process_group (Obj d) npi_filter = Inr (Some g)) \<longleftrightarrow>
            npi_filter = {} \<or> (\<exists>n \<in> set strs. n \<in> npi_filter))
     \<and> process_group (Obj d) npi_filter =
           Inr (if npi_filter = {} \<or> (\<exists>n \<in> set strs. n \<in> npi_filter) then Some survivor
                else None)
     \<and> (\<exists>h. group_row_from_dict survivor =
           Inr [(''npi_numbers'',
                   Sc (SStr (''['' @ join '', '' (map dumps_str (sort kept)) @ '']''))),
                (''tin_type'', tin_type), (''tin_value'', tin_value),
                (''provider_group_hash'', Sc (SInt h))])"
proof -
  have ne: "(filter (\<lambda>n. n \<in> npi_filter) strs \<noteq> []) = (\<exists>n \<in> set strs. n \<in> npi_filter)"
    by (auto simp: filter_empty_conv)
  have p: "process_group (Obj d) npi_filter =
           Inr (if npi_filter = {} \<or> (\<exists>n \<in> set strs. n \<in> npi_filter) then Some survivor
                else None)"
    using assms(1,2,6,7) ne by (auto simp: process_group_def Let_def)
  have tin: "map_of (AList.update ''npi'' (Arr (map (\<lambda>n. Sc (SStr n)) kept)) d) ''tin'' = Some tin"
    using assms(3) by (simp add: update_conv')
  obtain h where h: "append_hash
            [(''npi_numbers'',
                   Sc (SStr (''['' @ join '', '' (map dumps_str (sort kept)) @ '']''))),
             (''tin_type'', tin_type), (''tin_value'', tin_value)] ''provider_group_hash''
        = Inr [(''npi_numbers'',
                   Sc (SStr (''['' @ join '', '' (map dumps_str (sort kept)) @ '']''))),
                (''tin_type'', tin_type), (''tin_value'', tin_value),
                (''provider_group_hash'', Sc (SInt h))]"
    using append_hash_nonempty [of "[(''npi_numbers'',
                   Sc (SStr (''['' @ join '', '' (map dumps_str (sort kept)) @ '']''))),
             (''tin_type'', tin_type), (''tin_value'', tin_value)]" "''provider_group_hash''"]
    by auto
  have r: "group_row_from_dict survivor =
           Inr [(''npi_numbers'',
                   Sc (SStr (''['' @ join '', '' (map dumps_str (sort kept)) @ '']''))),
                (''tin_type'', tin_type), (''tin_value'', tin_value),
                (''provider_group_hash'', Sc (SInt h))]"
    using assms(4,5,7) tin h by (simp add: group_row_from_dict_def update_conv')
  from p r show ?thesis by auto
qed


lemma npi_example_strs:
  "mapE py_str [Sc (SInt 1111111111), Sc (SInt 2020202020), Sc (SInt 9999999999)]
     = Inr [''1111111111'', ''2020202020'', ''9999999999'']"
  by (simp add: str_int_def str_nat.simps digit_char_def)

lemma npi_example_column:
  "''['' @ join '', '' (map dumps_str (sort [''1111111111'', ''2020202020''])) @ '']''
     = [CHR ''['', CHR 0x22] @ ''1111111111'' @ [CHR 0x22] @ '', '' @ [CHR 0x22]
         @ ''2020202020'' @ [CHR 0x22, CHR '']'']"
  by code_simp

theorem process_group_npi_numbers_witness:
  "process_group
      (Obj [(''npi'', Arr [Sc (SInt 1111111111), Sc (SInt 2020202020), Sc (SInt 9999999999)]),
            (''tin'', Obj [(''type'', Sc (SStr ''ein'')), (''value'', Sc (SStr ''12-3456789''))])])
      {''1111111111'', ''5555555555'', ''2020202020''}
     = Inr (Some (Obj [(''npi'', Arr [Sc (SStr ''1111111111''), Sc (SStr ''2020202020'')]),
            (''tin'', Obj [(''type'', Sc (SStr ''ein'')), (''value'', Sc (SStr ''12-3456789''))])]))
   \<and> (\<exists>h. group_row_from_dict
         (Obj [(''npi'', Arr [Sc (SStr ''1111111111''), Sc (SStr ''2020202020'')]),
            (''tin'', Obj [(''type'', Sc (SStr ''ein'')), (''value'', Sc (SStr ''12-3456789''))])])
       = Inr [(''npi_numbers'',
                 Sc (SStr ([CHR ''['', CHR 0x22] @ ''1111111111'' @ [CHR 0x22] @ '', ''
                    @ [CHR 0x22] @ ''2020202020'' @ [CHR 0x22, CHR '']'']))),
              (''tin_type'', Sc (SStr ''ein'')), (''tin_value'', Sc (SStr ''12-3456789'')),
              (''provider_group_hash'', Sc (SInt h))])"
proof -
  let ?d = "[(''npi'', Arr [Sc (SInt 1111111111), Sc (SInt 2020202020), Sc (SInt 9999999999)]),
            (''tin'', Obj [(''type'', Sc (SStr ''ein'')), (''value'', Sc (SStr ''12-3456789''))])]"
  let ?F = "{''1111111111'', ''5555555555'', ''2020202020''}"
  have 1: "map_of ?d ''npi''
      = Some (Arr [Sc (SInt 1111111111), Sc (SInt 2020202020), Sc (SInt 9999999999)])"
    by simp
  have 3: "map_of ?d ''tin''
      = Some (Obj [(''type'', Sc (SStr ''ein'')), (''value'', Sc (SStr ''12-3456789''))])"
    by simp
  have 4: "get_item (Obj [(''type'', Sc (SStr ''ein'')), (''value'', Sc (SStr ''12-3456789''))])
      ''type'' = Inr (Sc (SStr ''ein''))"
    by simp
  have 5: "get_item (Obj [(''type'', Sc (SStr ''ein'')), (''value'', Sc (SStr ''12-3456789''))])
      ''value'' = Inr (Sc (SStr ''12-3456789''))"
    by simp
  have 6: "[''1111111111'', ''2020202020''] =
      (if ?F = {} then [''1111111111'', ''2020202020'', ''9999999999'']
       else filter (\<lambda>n. n \<in> ?F) [''1111111111'', ''2020202020'', ''9999999999''])"
    by simp
  have 7: "Obj [(''npi'', Arr [Sc (SStr ''1111111111''), Sc (SStr ''2020202020'')]),
            (''tin'', Obj [(''type'', Sc (SStr ''ein'')), (''value'', Sc (SStr ''12-3456789''))])]
      = Obj (AList.update ''npi''
               (Arr (map (\<lambda>n. Sc (SStr n)) [''1111111111'', ''2020202020''])) ?d)"
    by simp
  from process_group_npi_numbers [OF 1 npi_example_strs 3 4 5 6 7]
  show ?thesis
    unfolding npi_example_column by simp
qed

text \<open>
  C5, as the claim states it, fails in its example: for the survivors 1111111111 and
  2020202020 the column is \<^verbatim>\<open>["1111111111", "2020202020"]\<close>, with the space that
  \<^verbatim>\<open>json.dumps\<close> puts after the comma, and not the string without it.
\<close>

theorem npi_numbers_column_counterexample:
  "(\<exists>h. group_row_from_dict
         (Obj [(''npi'', Arr [Sc (SStr ''1111111111''), Sc (SStr ''2020202020'')]),
            (''tin'', Obj [(''type'', Sc (SStr ''ein'')), (''value'', Sc (SStr ''12-3456789''))])])
       = Inr [(''npi_numbers'',
                 Sc (SStr ([CHR ''['', CHR 0x22] @ ''1111111111'' @ [CHR 0x22] @ '', ''
                    @ [CHR 0x22] @ ''2020202020'' @ [CHR 0x22, CHR '']'']))),
              (''tin_type'', Sc (SStr ''ein'')), (''tin_value'', Sc (SStr ''12-3456789'')),
              (''provider_group_hash'', Sc (SInt h))])
   \<and> [CHR ''['', CHR 0x22] @ ''1111111111'' @ [CHR 0x22] @ '', ''
          @ [CHR 0x22] @ ''2020202020'' @ [CHR 0x22, CHR '']'']
     \<noteq> [CHR ''['', CHR 0x22] @ ''1111111111'' @ [CHR 0x22] @ '',''
          @ [CHR 0x22] @ ''2020202020'' @ [CHR 0x22, CHR '']'']"
proof -
  have "py_sorted (Arr [Sc (SStr ''1111111111''), Sc (SStr ''2020202020'')])
      = Inr (map (\<lambda>n. Sc (SStr n)) (sort [''1111111111'', ''2020202020'']))"
    using py_sorted_strs [of "[''1111111111'', ''2020202020'']"] by simp
  moreover have "\<exists>h. append_hash
       [(''npi_numbers'',
                 Sc (SStr ([CHR ''['', CHR 0x22] @ ''1111111111'' @ [CHR 0x22] @ '', ''
                    @ [CHR 0x22] @ ''2020202020'' @ [CHR 0x22, CHR '']'']))),
        (''tin_type'', Sc (SStr ''ein'')), (''tin_value'', Sc (SStr ''12-3456789''))]
       ''provider_group_hash''
     = Inr [(''npi_numbers'',
                 Sc (SStr ([CHR ''['', CHR 0x22] @ ''1111111111'' @ [CHR 0x22] @ '', ''
                    @ [CHR 0x22] @ ''2020202020'' @ [CHR 0x22, CHR '']'']))),
              (''tin_type'', Sc (SStr ''ein'')), (''tin_value'', Sc (SStr ''12-3456789'')),
              (''provider_group_hash'', Sc (SInt h))]"
    using append_hash_nonempty [of "[(''npi_numbers'',
                 Sc (SStr ([CHR ''['', CHR 0x22] @ ''1111111111'' @ [CHR 0x22] @ '', ''
                    @ [CHR 0x22] @ ''2020202020'' @ [CHR 0x22, CHR '']'']))),
        (''tin_type'', Sc (SStr ''ein'')), (''tin_value'', Sc (SStr ''12-3456789''))]"
        "''provider_group_hash''"]
    by simp
  ultimately show ?thesis
    using npi_example_column by (simp add: group_row_from_dict_def)
qed

subsection \<open>Price rows\<close>

lemma service_code_example:
  "optional_json
     (Obj [(''billing_class'', Sc (SStr ''professional'')),
           (''negotiated_rate'', Sc (SFloat ''100.0'')),
           (''service_code'', Arr [Sc (SStr '' b''), Sc (SStr ''a'')])])
     [''service_code'', ''billing_code_modifier''] row
   = Inr (AList.update ''service_code''
            (Sc (SStr ([CHR ''['', CHR 0x22, CHR ''b'', CHR 0x22] @ '', ''
                         @ [CHR 0x22, CHR ''a'', CHR 0x22, CHR '']''])))
            row)"
proof -
  have "mapE py_strip (map (\<lambda>s. Sc (SStr s)) (sort ['' b'', ''a'']))
      = Inr [Sc (SStr ''b''), Sc (SStr ''a'')]"
    by code_simp
  moreover have "json_dumps False (Arr [Sc (SStr ''b''), Sc (SStr ''a'')])
      = [CHR ''['', CHR 0x22, CHR ''b'', CHR 0x22] @ '', '' @ [CHR 0x22, CHR ''a'', CHR 0x22, CHR '']'']"
    by code_simp
  ultimately show ?thesis
    by (simp add: py_sorted_def dict_get_def del: json_dumps.simps)
qed

text \<open>
  C6 fails on the code: \<^verbatim>\<open>price_row_from_dict\<close> sorts the elements first and trims them
  afterwards. For the service codes \<^verbatim>\<open>[" b", "a"]\<close> the column is \<^verbatim>\<open>["b", "a"]\<close>, which is
  not sorted, where trimming and then sorting gives \<^verbatim>\<open>["a", "b"]\<close>.
\<close>

theorem price_row_sorted_before_trimmed:
  "(\<exists>h. price_row_from_dict
       (Obj [(''billing_class'', Sc (SStr ''professional'')),
             (''negotiated_rate'', Sc (SFloat ''100.0'')),
             (''service_code'', Arr [Sc (SStr '' b''), Sc (SStr ''a'')])])
       (Sc (SInt 5)) (Sc (SInt 7))
     = Inr [(''billing_class'', Sc (SStr ''professional'')),
            (''negotiated_type'', Sc SNull),
            (''expiration_date'', Sc SNull),
            (''negotiated_rate'', Sc (SFloat ''100.0'')),
            (''additional_information'', Sc SNull),
            (''service_code'',
               Sc (SStr ([CHR ''['', CHR 0x22, CHR ''b'', CHR 0x22] @ '', ''
                          @ [CHR 0x22, CHR ''a'', CHR 0x22, CHR '']'']))),
            (''code_hash'', Sc (SInt 5)), (''filename_hash'', Sc (SInt 7)),
            (''price_hash'', Sc (SInt h))])
   \<and> sort (map strip ['' b'', ''a'']) = [''a'', ''b'']
   \<and> map strip (sort ['' b'', ''a'']) = [''b'', ''a'']"
proof -
  have s: "sort (map strip ['' b'', ''a'']) = [''a'', ''b'']
      \<and> map strip (sort ['' b'', ''a'']) = [''b'', ''a'']"
    by code_simp
  have g: "get_all (Obj [(''billing_class'', Sc (SStr ''professional'')),
             (''negotiated_rate'', Sc (SFloat ''100.0'')),
             (''service_code'', Arr [Sc (SStr '' b''), Sc (SStr ''a'')])])
         [''billing_class'', ''negotiated_type'', ''expiration_date'',
              ''negotiated_rate'', ''additional_information'']
     = Inr [(''billing_class'', Sc (SStr ''professional'')),
            (''negotiated_type'', Sc SNull),
            (''expiration_date'', Sc SNull),
            (''negotiated_rate'', Sc (SFloat ''100.0'')),
            (''additional_information'', Sc SNull)]"
    by (simp add: get_all_def dict_get_def)
  show ?thesis
    using s
    by (simp add: price_row_from_dict_def g service_code_example append_hash_def
          dicthasher_def del: json_dumps.simps optional_json.simps)
qed

subsection \<open>The content hash\<close>







subsection \<open>What the writers append\<close>

lemma put_line_written:
  "put_line t l s = (e, s') \<Longrightarrow>
     written s' = written s @ (if e = None then [(t, l)] else [])"
  by (auto simp: put_line_def split: if_splits)

lemma writerow_written:
  "writerow t row s = (e, s') \<Longrightarrow>
     written s' = written s @
       (if e = None
        then [(t, row_line t row)]
        else [])"
  by (auto simp: writerow_def dest: put_line_written split: if_splits)

lemma writerows_written:
  "writerows t rows s = (e, s') \<Longrightarrow>
     \<exists>k \<le> length rows. (e = None \<longrightarrow> k = length rows) \<and>
       written s' = written s @
         map (\<lambda>row. (t, row_line t row)) (take k rows)"
proof (induction rows arbitrary: s)
  case Nil
  then show ?case by simp
next
  case (Cons row rows)
  obtain e1 s1 where w: "writerow t row s = (e1, s1)"
    by (cases "writerow t row s") auto
  show ?case
  proof (cases e1)
    case None
    with Cons.prems w have r: "writerows t rows s1 = (e, s')"
      by simp
    from Cons.IH [OF r] obtain k where k: "k \<le> length rows" "e = None \<longrightarrow> k = length rows"
      "written s' = written s1 @
         map (\<lambda>row. (t, row_line t row)) (take k rows)"
      by blast
    from writerow_written [OF w] None k show ?thesis
      by (intro exI [of _ "Suc k"]) simp
  next
    case (Some x)
    with Cons.prems w have "e = Some x" "s' = s1"
      by simp_all
    with writerow_written [OF w] Some show ?thesis
      by (intro exI [of _ 0]) simp
  qed
qed

lemma open_append_written: "open_append t s = (e, s') \<Longrightarrow> written s' = written s"
  by (auto simp: open_append_def split: if_splits)

lemma write_table_written:
  assumes "write_table (RowList rows) t s = (e, s')"
  shows "\<exists>hdr k. (hdr = [] \<or> hdr = [(t, Header (SCHEMA t))]) \<and> k \<le> length rows
     \<and> (e = None \<longrightarrow> k = length rows)
     \<and> written s' = written s @ hdr @
         map (\<lambda>row. (t, row_line t row)) (take k rows)"
proof -
  obtain e1 s1 where o: "open_append t s = (e1, s1)"
    by (cases "open_append t s") auto
  show ?thesis
  proof (cases e1)
    case (Some x)
    with assms o open_append_written [OF o] show ?thesis
      by (intro exI [of _ "[]"] exI [of _ 0]) (auto simp: write_table_def Let_def)
  next
    case None
    obtain e2 s2 where h: "(if t \<notin> existing s then put_line t (Header (SCHEMA t)) s1
                 else (None, s1)) = (e2, s2)"
      by (cases "(if t \<notin> existing s then put_line t (Header (SCHEMA t)) s1
                 else (None, s1))") auto
    then have w2: "written s2 = written s @ (if t \<notin> existing s \<and> e2 = None
         then [(t, Header (SCHEMA t))] else [])"
      using open_append_written [OF o] by (auto dest: put_line_written split: if_splits)
    show ?thesis
    proof (cases e2)
      case (Some x)
      with assms o None h w2 show ?thesis
        by (intro exI [of _ "[]"] exI [of _ 0]) (auto simp: write_table_def Let_def)
    next
      case n2: None
      with assms o None h have "writerows t rows s2 = (e, s')"
        by (auto simp: write_table_def Let_def)
      from writerows_written [OF this] obtain k where "k \<le> length rows"
        "e = None \<longrightarrow> k = length rows"
        "written s' = written s2 @
         map (\<lambda>row. (t, row_line t row)) (take k rows)"
        by blast
      with w2 show ?thesis
        by (intro exI [of _ "if t \<notin> existing s \<and> e2 = None
         then [(t, Header (SCHEMA t))] else []"] exI [of _ k]) auto
    qed
  qed
qed

lemma column_of_append: "column_of c (xs @ ys) = column_of c xs @ column_of c ys"
  by (induction c xs rule: column_of.induct) (auto split: option.splits)

lemma lines_of_append:
  "written s' = written s @ ls \<Longrightarrow>
     lines_of t s' = lines_of t s @ map snd (filter (\<lambda>tl. fst tl = t) ls)"
  by (simp add: lines_of_def)

lemma map_of_tabulate:
  "map_of (map (\<lambda>f. (f, g f)) fs) c = (if c \<in> set fs then Some (g c) else None)"
  by (induction fs) auto

lemma column_of_row_lines:
  "c \<in> set (SCHEMA t) \<Longrightarrow>
     column_of c (map (row_line t) rows)
       = map (cell c) rows"
  by (induction rows) (auto simp: row_line_def map_of_tabulate)

text \<open>What \<open>write_table\<close> of a list of rows does to one column of the tables.\<close>

lemma write_table_column:
  assumes "write_table (RowList rows) t s = (e, s')" and "c \<in> set (SCHEMA t)"
  shows "\<exists>k \<le> length rows. (e = None \<longrightarrow> k = length rows)
     \<and> column_of c (lines_of t s') = column_of c (lines_of t s)
         @ map (cell c) (take k rows)"
proof -
  from write_table_written [OF assms(1)] obtain hdr k where
    h: "hdr = [] \<or> hdr = [(t, Header (SCHEMA t))]" "k \<le> length rows"
       "e = None \<longrightarrow> k = length rows"
       "written s' = written s @ hdr @ map (\<lambda>row. (t, row_line t row)) (take k rows)"
    by blast
  have f: "map snd (filter (\<lambda>tl. fst tl = t) (map (\<lambda>row. (t, row_line t row)) (take k rows)))
      = map (row_line t) (take k rows)"
    by (induction "take k rows" arbitrary: k rows) (auto simp: filter_map comp_def)
  have "lines_of t s' = lines_of t s @ map snd (filter (\<lambda>tl. fst tl = t) hdr)
      @ map (row_line t) (take k rows)"
    using lines_of_append [OF h(4), of t] f by simp
  then have "column_of c (lines_of t s') = column_of c (lines_of t s)
      @ column_of c (map (row_line t) (take k rows))"
    using h(1) by (auto simp: column_of_append)
  with h(2,3) assms(2) show ?thesis
    by (auto simp: column_of_row_lines)
qed

lemma write_table_other:
  assumes "write_table (RowList rows) t s = (e, s')" and "t' \<noteq> t"
  shows "lines_of t' s' = lines_of t' s"
proof -
  from write_table_written [OF assms(1)] obtain hdr k where
    h: "hdr = [] \<or> hdr = [(t, Header (SCHEMA t))]"
       "written s' = written s @ hdr @ map (\<lambda>row. (t, row_line t row)) (take k rows)"
    by blast
  have "filter (\<lambda>tl. fst tl = t') (map (\<lambda>row. (t, row_line t row)) (take k rows)) = []"
    using assms(2) by (auto simp: filter_empty_conv)
  with h assms(2) show ?thesis
    using lines_of_append [OF h(2), of t'] by auto
qed


lemma write_table_RowDict: "write_table (RowDict row) t s = write_table (RowList [row]) t s"
  by (cases "writerow t row s"; cases "fst (writerow t row s)")
     (auto simp: write_table_def Let_def split: prod.splits option.splits)

lemma write_table_other':
  assumes "write_table rows t s = (e, s')" and "t' \<noteq> t"
  shows "lines_of t' s' = lines_of t' s"
  using assms by (cases rows) (auto simp: write_table_RowDict dest: write_table_other)

lemma mapE_Inr_set:
  "mapE f xs = Inr ys \<Longrightarrow> y \<in> set ys \<Longrightarrow> \<exists>x \<in> set xs. f x = Inr y"
  by (induction xs arbitrary: ys) (auto split: sum.splits)

lemma prices_groups_rows_hash:
  assumes "prices_groups_rows_from_dicts price_rows group_rows = Inr pg" and "r \<in> set pg"
  shows "\<exists>g \<in> set group_rows. \<exists>v. map_of g ''provider_group_hash'' = Some v
            \<and> map_of r ''provider_group_hash'' = Some v"
proof -
  from mapE_Inr_set [OF assms [unfolded prices_groups_rows_from_dicts_def]]
  obtain p g where "g \<in> set group_rows" "prices_groups_row p g = Inr r"
    by auto
  then show ?thesis
    by (auto simp: prices_groups_row_def split: option.splits sum.splits)
qed

lemma write_rate_links:
  assumes "write_rate rate code_hash filename_hash s = (e, s')" and "links_have_groups s"
  shows "links_have_groups s'"
proof -
  let ?c = "''provider_group_hash''"
  let ?cell = "cell ?c"
  show ?thesis
  proof (cases "get_item rate ''negotiated_prices''")
    case (Inl a) with assms show ?thesis by (simp add: write_rate_def)
  next
    case prices: (Inr prices)
    show ?thesis
    proof (cases "py_get_default rate ''provider_groups'' (Arr [])")
      case (Inl a) with assms prices show ?thesis by (simp add: write_rate_def)
    next
      case groups: (Inr groups)
      show ?thesis
      proof (cases "price_rows_from_dicts prices code_hash filename_hash")
        case (Inl a) with assms prices groups show ?thesis by (simp add: write_rate_def)
      next
        case price_rows: (Inr price_rows)
        obtain e1 s1 where w1: "write_table (RowList price_rows) Prices s = (e1, s1)"
          by (cases "write_table (RowList price_rows) Prices s") auto
        have i1: "links_have_groups s1"
          using assms(2) write_table_other [OF w1, of PricesProviderGroups]
            write_table_other [OF w1, of ProviderGroups]
          by (simp add: links_have_groups_def)
        show ?thesis
        proof (cases e1)
          case (Some a)
          with assms prices groups price_rows w1 i1 show ?thesis
            by (simp add: write_rate_def)
        next
          case n1: None
          show ?thesis
          proof (cases "group_rows_from_dicts groups")
            case (Inl a)
            with assms prices groups price_rows w1 i1 n1 show ?thesis
              by (simp add: write_rate_def)
          next
            case group_rows: (Inr group_rows)
            obtain e2 s2 where
              w2: "write_table (RowList group_rows) ProviderGroups s1 = (e2, s2)"
              by (cases "write_table (RowList group_rows) ProviderGroups s1") auto
            from write_table_column [OF w2, of ?c] obtain k where
              k: "e2 = None \<longrightarrow> k = length group_rows"
                 "column_of ?c (lines_of ProviderGroups s2)
                    = column_of ?c (lines_of ProviderGroups s1) @ map ?cell (take k group_rows)"
              by auto
            have l2: "lines_of PricesProviderGroups s2 = lines_of PricesProviderGroups s1"
              using write_table_other [OF w2, of PricesProviderGroups] by simp
            have i2: "links_have_groups s2"
              using i1 k(2) l2 by (auto simp: links_have_groups_def)
            show ?thesis
            proof (cases e2)
              case (Some a)
              with assms prices groups price_rows w1 n1 group_rows w2 i2 show ?thesis
                by (simp add: write_rate_def)
            next
              case n2: None
              with k have all: "set (map ?cell group_rows)
                  \<subseteq> set (column_of ?c (lines_of ProviderGroups s2))"
                by simp
              show ?thesis
              proof (cases "prices_groups_rows_from_dicts price_rows group_rows")
                case (Inl a)
                with assms prices groups price_rows w1 n1 group_rows w2 i2 n2 show ?thesis
                  by (simp add: write_rate_def)
              next
                case pg: (Inr pg)
                with assms prices groups price_rows w1 n1 group_rows w2 n2 have
                  w3: "write_table (RowList pg) PricesProviderGroups s2 = (e, s')"
                  by (simp add: write_rate_def)
                from write_table_column [OF w3, of ?c] obtain j where
                  j: "column_of ?c (lines_of PricesProviderGroups s')
                    = column_of ?c (lines_of PricesProviderGroups s2) @ map ?cell (take j pg)"
                  by auto
                have l3: "lines_of ProviderGroups s' = lines_of ProviderGroups s2"
                  using write_table_other [OF w3, of ProviderGroups] by simp
                have "set (map ?cell (take j pg)) \<subseteq> set (map ?cell group_rows)"
                proof
                  fix v assume "v \<in> set (map ?cell (take j pg))"
                  then obtain r where r: "r \<in> set pg" "v = ?cell r"
                    by (auto dest: in_set_takeD)
                  from prices_groups_rows_hash [OF pg r(1)] r(2)
                  show "v \<in> set (map ?cell group_rows)"
                    by (force simp: cell_def)
                qed
                with all i2 j l3 show ?thesis
                  by (auto simp: links_have_groups_def)
              qed
            qed
          qed
        qed
      qed
    qed
  qed
qed

lemma write_rates_links:
  "write_rates rates code_hash filename_hash s = (e, s') \<Longrightarrow> links_have_groups s
     \<Longrightarrow> links_have_groups s'"
proof (induction rates arbitrary: s)
  case Nil
  then show ?case by simp
next
  case (Cons rate rates)
  obtain e1 s1 where w: "write_rate rate code_hash filename_hash s = (e1, s1)"
    by (cases "write_rate rate code_hash filename_hash s") auto
  from write_rate_links [OF w Cons.prems(2)] have i: "links_have_groups s1" .
  show ?case
  proof (cases e1)
    case None
    with Cons.prems(1) w have "write_rates rates code_hash filename_hash s1 = (e, s')"
      by simp
    from Cons.IH [OF this i] show ?thesis .
  next
    case (Some a)
    with Cons.prems(1) w i show ?thesis by simp
  qed
qed

lemma mapE_Inr_map:
  "mapE f xs = Inr ys \<Longrightarrow> (\<And>x y. x \<in> set xs \<Longrightarrow> f x = Inr y \<Longrightarrow> h y = k x)
     \<Longrightarrow> map h ys = map k xs"
  by (induction xs arbitrary: ys) (auto split: sum.splits)

lemma prices_groups_rows_columns:
  assumes "prices_groups_rows_from_dicts price_rows group_rows = Inr pg"
  shows "map (cell ''provider_group_hash'') pg
           = concat (map (\<lambda>p. map (cell ''provider_group_hash'') group_rows) price_rows)"
    and "map (cell ''price_hash'') pg
           = concat (map (\<lambda>p. map (\<lambda>g. cell ''price_hash'' p) group_rows) price_rows)"
proof -
  let ?xs = "concat (map (\<lambda>price_row. map (\<lambda>group_row. (price_row, group_row)) group_rows)
                  price_rows)"
  have m: "mapE (\<lambda>(price_row, group_row). prices_groups_row price_row group_row) ?xs = Inr pg"
    using assms by (simp add: prices_groups_rows_from_dicts_def)
  have "map (cell ''provider_group_hash'') pg = map (\<lambda>(p, g). cell ''provider_group_hash'' g) ?xs"
    by (rule mapE_Inr_map [OF m])
       (auto simp: prices_groups_row_def cell_def split: option.splits sum.splits)
  then show "map (cell ''provider_group_hash'') pg
           = concat (map (\<lambda>p. map (cell ''provider_group_hash'') group_rows) price_rows)"
    by (simp add: map_concat comp_def)
  have "map (cell ''price_hash'') pg = map (\<lambda>(p, g). cell ''price_hash'' p) ?xs"
    by (rule mapE_Inr_map [OF m])
       (auto simp: prices_groups_row_def cell_def split: option.splits sum.splits)
  then show "map (cell ''price_hash'') pg
           = concat (map (\<lambda>p. map (\<lambda>g. cell ''price_hash'' p) group_rows) price_rows)"
    by (simp add: map_concat comp_def)
qed

lemma write_table_column_all:
  assumes "write_table (RowList rows) t s = (None, s')" and "c \<in> set (SCHEMA t)"
  shows "column_of c (lines_of t s') = column_of c (lines_of t s) @ map (cell c) rows"
  using write_table_column [OF assms] by auto

lemma write_rate_product:
  assumes "write_rate rate code_hash filename_hash s = (None, s')"
  shows "\<exists>prices groups price_rows group_rows.
       get_item rate ''negotiated_prices'' = Inr prices
     \<and> py_get_default rate ''provider_groups'' (Arr []) = Inr groups
     \<and> price_rows_from_dicts prices code_hash filename_hash = Inr price_rows
     \<and> group_rows_from_dicts groups = Inr group_rows
     \<and> column_of ''provider_group_hash'' (lines_of ProviderGroups s')
         = column_of ''provider_group_hash'' (lines_of ProviderGroups s)
           @ map (cell ''provider_group_hash'') group_rows
     \<and> column_of ''provider_group_hash'' (lines_of PricesProviderGroups s')
         = column_of ''provider_group_hash'' (lines_of PricesProviderGroups s)
           @ concat (map (\<lambda>p. map (cell ''provider_group_hash'') group_rows) price_rows)
     \<and> column_of ''price_hash'' (lines_of PricesProviderGroups s')
         = column_of ''price_hash'' (lines_of PricesProviderGroups s)
           @ concat (map (\<lambda>p. map (\<lambda>g. cell ''price_hash'' p) group_rows) price_rows)"
proof -
  from assms obtain prices groups price_rows s1 group_rows s2 pg where
    h: "get_item rate ''negotiated_prices'' = Inr prices"
       "py_get_default rate ''provider_groups'' (Arr []) = Inr groups"
       "price_rows_from_dicts prices code_hash filename_hash = Inr price_rows"
       "write_table (RowList price_rows) Prices s = (None, s1)"
       "group_rows_from_dicts groups = Inr group_rows"
       "write_table (RowList group_rows) ProviderGroups s1 = (None, s2)"
       "prices_groups_rows_from_dicts price_rows group_rows = Inr pg"
       "write_table (RowList pg) PricesProviderGroups s2 = (None, s')"
    by (auto simp: write_rate_def split: sum.splits prod.splits option.splits)
  have g: "column_of ''provider_group_hash'' (lines_of ProviderGroups s')
         = column_of ''provider_group_hash'' (lines_of ProviderGroups s)
           @ map (cell ''provider_group_hash'') group_rows"
    using write_table_other [OF h(4), of ProviderGroups]
      write_table_column_all [OF h(6), of "''provider_group_hash''"]
      write_table_other [OF h(8), of ProviderGroups]
    by simp
  have l: "lines_of PricesProviderGroups s2 = lines_of PricesProviderGroups s"
    using write_table_other [OF h(4), of PricesProviderGroups]
      write_table_other [OF h(6), of PricesProviderGroups]
    by simp
  have a: "column_of ''provider_group_hash'' (lines_of PricesProviderGroups s')
         = column_of ''provider_group_hash'' (lines_of PricesProviderGroups s)
           @ concat (map (\<lambda>p. map (cell ''provider_group_hash'') group_rows) price_rows)"
    using write_table_column_all [OF h(8), of "''provider_group_hash''"] l
      prices_groups_rows_columns(1) [OF h(7)]
    by simp
  have b: "column_of ''price_hash'' (lines_of PricesProviderGroups s')
         = column_of ''price_hash'' (lines_of PricesProviderGroups s)
           @ concat (map (\<lambda>p. map (\<lambda>g. cell ''price_hash'' p) group_rows) price_rows)"
    using write_table_column_all [OF h(8), of "''price_hash''"] l
      prices_groups_rows_columns(2) [OF h(7)]
    by simp
  from h(1,2,3,5) g a b show ?thesis
    by blast
qed

lemma write_in_network_item_links:
  assumes "write_in_network_item item filename_hash s = (e, s')" and "links_have_groups s"
  shows "links_have_groups s'"
proof -
  have c: "links_have_groups s1"
    if "write_table (RowDict code_row) Codes s = (e1, s1)" for code_row e1 s1
    using that assms(2) write_table_other' [OF that, of PricesProviderGroups]
      write_table_other' [OF that, of ProviderGroups]
    by (simp add: links_have_groups_def)
  from assms show ?thesis
    unfolding write_in_network_item_def
    by (auto split: sum.splits prod.splits option.splits
             dest: c write_rates_links)
qed


text \<open>
  C9. Every \<^verbatim>\<open>provider_group_hash\<close> written to \<^verbatim>\<open>prices_provider_groups\<close> is also written
  to \<^verbatim>\<open>provider_groups\<close>: \<open>write_in_network_item\<close> keeps this true of the lines written,
  whether it returns or raises part of the way (a write error included). For each rate
  that is written through, the group rows appended to \<^verbatim>\<open>provider_groups\<close> are the rows of
  the rate's groups, and the link rows appended are the Cartesian product of the rate's
  price rows with exactly these group rows.
\<close>

theorem write_in_network_item_links_have_groups:
  "(write_in_network_item item filename_hash s = (e, s') \<and> links_have_groups s
      \<longrightarrow> links_have_groups s')
   \<and> (write_rate rate code_hash filename_hash s = (None, s'') \<longrightarrow>
        (\<exists>prices groups price_rows group_rows.
           get_item rate ''negotiated_prices'' = Inr prices
         \<and> py_get_default rate ''provider_groups'' (Arr []) = Inr groups
         \<and> price_rows_from_dicts prices code_hash filename_hash = Inr price_rows
         \<and> group_rows_from_dicts groups = Inr group_rows
         \<and> column_of ''provider_group_hash'' (lines_of ProviderGroups s'')
             = column_of ''provider_group_hash'' (lines_of ProviderGroups s)
               @ map (cell ''provider_group_hash'') group_rows
         \<and> column_of ''provider_group_hash'' (lines_of PricesProviderGroups s'')
             = column_of ''provider_group_hash'' (lines_of PricesProviderGroups s)
               @ concat (map (\<lambda>p. map (cell ''provider_group_hash'') group_rows) price_rows)
         \<and> column_of ''price_hash'' (lines_of PricesProviderGroups s'')
             = column_of ''price_hash'' (lines_of PricesProviderGroups s)
               @ concat (map (\<lambda>p. map (\<lambda>g. cell ''price_hash'' p) group_rows) price_rows)))"
  using write_in_network_item_links [of item filename_hash s e s']
    write_rate_product [of rate code_hash filename_hash s s'']
  by blast

lemmas writer_simps = write_in_network_item_def code_row_from_dict_def append_hash_def
  dicthasher_def write_table_def open_append_def put_line_def writerow_def row_line_def
  cell_def write_rate_def price_rows_from_dicts_def price_row_from_dict_def get_all_def
  dict_get_def group_rows_from_dicts_def group_row_from_dict_def py_sorted_def
  prices_groups_rows_from_dicts_def prices_groups_row_def strip_def isspace_def Let_def

theorem write_in_network_item_links_have_groups_witness:
  "links_have_groups \<lparr>dir_exists = True, existing = {}, written = [], budget = 100\<rparr>
   \<and> links_have_groups (snd (write_in_network_item
     (Obj [(''billing_code_type'', Sc (SStr ''TS-TST'')),
           (''billing_code_type_version'', Sc (SStr ''2022'')),
           (''billing_code'', Sc (SStr ''0000'')),
           (''negotiated_rates'',
              Arr [Obj [(''negotiated_prices'',
                           Arr [Obj [(''negotiated_rate'', Sc (SFloat ''100.0''))]]),
                        (''provider_groups'',
                           Arr [Obj [(''npi'', Arr [Sc (SStr ''1111111111'')]),
                                     (''tin'', Obj [(''type'', Sc (SStr ''ein'')),
                                                    (''value'', Sc (SStr ''12-3456789''))])]])]])])
     (Sc (SInt 7))
     \<lparr>dir_exists = True, existing = {}, written = [], budget = 100\<rparr>))
   \<and> length (column_of ''provider_group_hash'' (lines_of PricesProviderGroups
      (snd (write_in_network_item
     (Obj [(''billing_code_type'', Sc (SStr ''TS-TST'')),
           (''billing_code_type_version'', Sc (SStr ''2022'')),
           (''billing_code'', Sc (SStr ''0000'')),
           (''negotiated_rates'',
              Arr [Obj [(''negotiated_prices'',
                           Arr [Obj [(''negotiated_rate'', Sc (SFloat ''100.0''))]]),
                        (''provider_groups'',
                           Arr [Obj [(''npi'', Arr [Sc (SStr ''1111111111'')]),
                                     (''tin'', Obj [(''type'', Sc (SStr ''ein'')),
                                                    (''value'', Sc (SStr ''12-3456789''))])]])]])])
     (Sc (SInt 7))
     \<lparr>dir_exists = True, existing = {}, written = [], budget = 100\<rparr>)))) = 1"
proof -
  let ?item = "Obj [(''billing_code_type'', Sc (SStr ''TS-TST'')),
           (''billing_code_type_version'', Sc (SStr ''2022'')),
           (''billing_code'', Sc (SStr ''0000'')),
           (''negotiated_rates'',
              Arr [Obj [(''negotiated_prices'',
                           Arr [Obj [(''negotiated_rate'', Sc (SFloat ''100.0''))]]),
                        (''provider_groups'',
                           Arr [Obj [(''npi'', Arr [Sc (SStr ''1111111111'')]),
                                     (''tin'', Obj [(''type'', Sc (SStr ''ein'')),
                                                    (''value'', Sc (SStr ''12-3456789''))])]])]])]"
  let ?s = "\<lparr>dir_exists = True, existing = {}, written = [], budget = 100\<rparr>"
  have i: "links_have_groups ?s"
    by (simp add: links_have_groups_def lines_of_def)
  have w: "write_in_network_item ?item (Sc (SInt 7)) ?s
      = (fst (write_in_network_item ?item (Sc (SInt 7)) ?s),
         snd (write_in_network_item ?item (Sc (SInt 7)) ?s))"
    by simp
  have l: "length (column_of ''provider_group_hash'' (lines_of PricesProviderGroups
      (snd (write_in_network_item ?item (Sc (SInt 7)) ?s)))) = 1"
    by (simp add: writer_simps lines_of_def del: json_dumps.simps)
  from write_in_network_item_links_have_groups
         [of ?item "Sc (SInt 7)" ?s "fst (write_in_network_item ?item (Sc (SInt 7)) ?s)"
             "snd (write_in_network_item ?item (Sc (SInt 7)) ?s)"] w i
  have "links_have_groups (snd (write_in_network_item ?item (Sc (SInt 7)) ?s))"
    by blast
  with i l show ?thesis
    by blast
qed

subsection \<open>The in-network items\<close>

lemma sub_prefix_length: "length prefix \<le> length (sub_prefix prefix k)"
  by (simp add: sub_prefix_def)

lemma sub_prefix_longer: "prefix \<noteq> [] \<Longrightarrow> length prefix < length (sub_prefix prefix k)"
  by (simp add: sub_prefix_def)

lemma events_of_prefix_length:
  "(q, e, v) \<in> set (events_of p x) \<Longrightarrow> length p \<le> length q"
proof (induction x arbitrary: p)
  case (Sc s)
  then show ?case by simp
next
  case (Arr xs)
  then show ?case
    using sub_prefix_length [of p "''item''"] by (fastforce simp: le_trans)
next
  case (Obj kvs)
  from Obj.prems consider "q = p"
    | k x where "(k, x) \<in> set kvs" "(q, e, v) \<in> set (events_of (sub_prefix p k) x)"
    by auto
  then show ?case
  proof cases
    case 1
    then show ?thesis by simp
  next
    case 2
    then have "length (sub_prefix p k) \<le> length q"
      using Obj.IH [of "(k, x)" x "sub_prefix p k"] by auto
    then show ?thesis
      using sub_prefix_length [of p k] by simp
  qed
qed

lemma frame_slot_store [simp]: "frame_slot (store v slot f) = frame_slot f"
  by (cases f; cases slot) auto

lemma plug_snoc:
  "fs \<noteq> [] \<Longrightarrow>
     \<exists>v. plug fs = Some v \<and> plug (fs @ [g]) = Some (frame_json (store v (frame_slot (last fs)) g))"
  by (induction fs rule: plug.induct) auto

text \<open>
  The builder inside an item: the frame of the item, \<open>OpenMap d None\<close>, above the frame
  of the array of items, which is empty, and the frames \<open>inner\<close> of the containers open
  inside the item.
\<close>

lemma builder_value_item:
  "builder_value \<lparr>bvalue = None, frames = [OpenMap d None, OpenArr [] None], detached = 0,
      initial = True, bkey = k\<rparr> = Some (Arr [Obj d])"
  by (simp add: builder_value_def)

lemma builder_value_inner:
  assumes "inner \<noteq> []" and "frame_slot (last inner) = Some k0"
  shows "\<exists>v. builder_value \<lparr>bvalue = None, frames = inner @ [OpenMap d None, OpenArr [] None],
      detached = 0, initial = True, bkey = k\<rparr> = Some (Arr [Obj (AList.update k0 v d)])"
proof -
  from plug_snoc [OF assms(1), of "OpenMap d None"] assms(2) obtain v where
    v: "plug (inner @ [OpenMap d None]) = Some (Obj (AList.update k0 v d))"
    by auto
  have "inner @ [OpenMap d None] \<noteq> []"
    by simp
  from plug_snoc [OF this, of "OpenArr [] None"] v
  have "plug ((inner @ [OpenMap d None]) @ [OpenArr [] None])
      = Some (Arr [Obj (AList.update k0 v d)])"
    by auto
  then show ?thesis
    by (auto simp: builder_value_def)
qed


lemma special_scalar:
  assumes "list_all (\<lambda>kv. fst kv \<in> set special_keys \<longrightarrow> is_scalar (snd kv)) d"
    and "k \<in> set special_keys"
  shows "is_scalar (dict_get d k)"
proof (cases "map_of d k")
  case None
  then show ?thesis by (simp add: dict_get_def)
next
  case (Some v)
  then have "(k, v) \<in> set d"
    by (rule map_of_SomeD)
  with assms have "is_scalar v"
    by (auto simp: list_all_iff)
  with Some show ?thesis by (simp add: dict_get_def)
qed

lemma not_in_filter_scalar:
  "is_scalar code_type \<Longrightarrow> is_scalar code \<Longrightarrow>
     \<exists>r. not_in_filter code_type code code_filter = Inr r"
proof -
  assume "is_scalar code_type" "is_scalar code"
  then obtain s t where "code_type = Sc t" "code = Sc s"
    by (cases code_type; cases code) auto
  then show ?thesis
    by (cases s; cases t) (auto simp: not_in_filter_def)
qed

text \<open>
  What \<open>skip_item_by_code\<close> decides depends on the three keys of the item at hand only.
\<close>

lemma skip_item_by_code_decision:
  assumes "builder_value b = Some (Arr [Obj d'])"
    and "\<forall>k \<in> set special_keys. dict_get d' k = dict_get d k"
    and "list_all (\<lambda>kv. fst kv \<in> set special_keys \<longrightarrow> is_scalar (snd kv)) d"
  shows "maybe_skip parser b code_filter =
     (if early_skipped code_filter d then skip_item parser b else Inr (parser, b))"
proof -
  have g: "dict_get d' ''billing_code_type'' = dict_get d ''billing_code_type''"
      "dict_get d' ''billing_code'' = dict_get d ''billing_code''"
      "dict_get d' ''negotiation_arrangement'' = dict_get d ''negotiation_arrangement''"
    using assms(2) by (simp_all add: special_keys_def)
  have "is_scalar (dict_get d ''billing_code_type'')" "is_scalar (dict_get d ''billing_code'')"
    using assms(3) by (simp_all add: special_scalar special_keys_def)
  then obtain r where r: "not_in_filter (dict_get d ''billing_code_type'')
      (dict_get d ''billing_code'') code_filter = Inr r"
    using not_in_filter_scalar by blast
  show ?thesis
    using assms(1) g r
    by (cases r) (auto simp: maybe_skip_def skip_item_by_code_def early_skipped_def)
qed

lemma ffwd_to_end_map:
  assumes "\<forall>(q, e, v) \<in> set evs. q \<noteq> ''in_network.item'' \<or> e \<noteq> EndMap"
  shows "ffwd (map Inr evs @ Inr (''in_network.item'', EndMap, SNull) # rest)
           (Some ''in_network.item'') (Some EndMap) None = Inr rest"
  using assms by (induction evs) (auto simp: ffwd_def)

text \<open>The skip, in the builder of an item whose frame is on top.\<close>

lemma skip_item_top:
  assumes "\<forall>(q, e, v) \<in> set evs. q \<noteq> ''in_network.item'' \<or> e \<noteq> EndMap"
  shows "skip_item (map Inr evs @ Inr (''in_network.item'', EndMap, SNull) # rest)
           \<lparr>bvalue = None, frames = [OpenMap d None, OpenArr [] None], detached = 0,
             initial = True, bkey = k\<rparr>
         = Inr (rest, \<lparr>bvalue = None, frames = [OpenArr [] None], detached = 0,
                        initial = True, bkey = k\<rparr>)"
  using ffwd_to_end_map [OF assms]
  by (simp add: skip_item_def value_pop_def pop_container_def)

lemma builder_event_scalar [simp]:
  "builder_event b (scalar_event s) s = call_top b (Sc s)"
  by (cases s) auto

lemma call_top_inside:
  "ready f k \<Longrightarrow> call_top (inside (f # fs) k) x = Inr (inside (store x k f # fs) k)"
  by (cases f; cases k) (auto simp: call_top_def inside_def)

lemma open_container_inside:
  "ready f k \<Longrightarrow>
     open_container (inside (f # fs) k) new
       = Inr (inside (new (case f of OpenArr xs s \<Rightarrow> None | OpenMap kvs s \<Rightarrow> k) # f # fs) k)"
  by (cases f; cases k) (auto simp: open_container_def inside_def)

lemma pop_container_inside:
  "pop_container (inside (f # p # fs) k)
     = Inr (inside (store (frame_json f) (frame_slot f) p # fs) k)"
  by (simp add: pop_container_def inside_def)

lemma map_key_inside:
  "builder_event (inside fs k) MapKey (SStr k') = Inr (inside fs (Some k'))"
  by (simp add: inside_def)

lemma dict_get_update_other: "k \<noteq> k0 \<Longrightarrow> dict_get (AList.update k0 v d) k = dict_get d k"
  by (simp add: dict_get_def update_conv')

lemma early_skipped_update:
  "k0 \<notin> set special_keys \<Longrightarrow>
     early_skipped code_filter (AList.update k0 v d) = early_skipped code_filter d"
  by (auto simp: early_skipped_def special_keys_def dict_get_update_other)

lemma set_update_subset: "set (AList.update k v d) \<subseteq> insert (k, v) (set d)"
  by (induction d) auto

lemma quiet_item_update:
  assumes "quiet_item code_filter d" and "k0 \<notin> set special_keys"
  shows "quiet_item code_filter (AList.update k0 v d)"
proof -
  have "list_all (\<lambda>kv. fst kv \<in> set special_keys \<longrightarrow> is_scalar (snd kv)) (AList.update k0 v d)"
    using assms set_update_subset [of k0 v d]
    by (auto simp: quiet_item_def list_all_iff)
  with assms show ?thesis
    by (simp add: quiet_item_def early_skipped_update)
qed

lemma in_item_calm:
  assumes "in_item code_filter fs"
  shows "maybe_skip parser (inside fs k) code_filter = Inr (parser, inside fs k)"
proof -
  from assms obtain d k0 inner where
    h: "fs = inner @ [OpenMap d None, OpenArr [] None]" "quiet_item code_filter d"
       "k0 \<notin> set special_keys" "inner \<noteq> [] \<longrightarrow> frame_slot (last inner) = Some k0"
    by (auto simp: in_item_def)
  show ?thesis
  proof (cases "inner = []")
    case True
    with h(1) have "builder_value (inside fs k) = Some (Arr [Obj d])"
      by (simp add: inside_def builder_value_item)
    from skip_item_by_code_decision [OF this, of d] h(2) show ?thesis
      by (simp add: quiet_item_def)
  next
    case False
    with h(4) builder_value_inner [of inner k0 d k] h(1) obtain v where
      "builder_value (inside fs k) = Some (Arr [Obj (AList.update k0 v d)])"
      by (auto simp: inside_def)
    moreover have "\<forall>k' \<in> set special_keys. dict_get (AList.update k0 v d) k' = dict_get d k'"
      using h(3) by (auto intro!: dict_get_update_other)
    moreover have "list_all (\<lambda>kv. fst kv \<in> set special_keys \<longrightarrow> is_scalar (snd kv)) d"
      "\<not> early_skipped code_filter d"
      using h(2) by (simp_all add: quiet_item_def)
    ultimately show ?thesis
      using skip_item_by_code_decision [of "inside fs k" "AList.update k0 v d" d parser code_filter]
      by simp
  qed
qed

lemma at_value_ready: "at_value code_filter (f # fs) k \<Longrightarrow> ready f k"
  by (auto simp: at_value_def Cons_eq_append_conv split: if_splits)

lemma at_value_stored:
  assumes "at_value code_filter (f # fs) k"
  shows "in_item code_filter (store x k f # fs)"
proof -
  from assms obtain d k0 inner where
    h: "f # fs = inner @ [OpenMap d None, OpenArr [] None]" "quiet_item code_filter d"
       "k0 \<notin> set special_keys"
       "if inner = [] then k = Some k0 else frame_slot (last inner) = Some k0 \<and> ready (hd inner) k"
    by (auto simp: at_value_def)
  show ?thesis
  proof (cases inner)
    case Nil
    with h have "store x k f # fs = [] @ [OpenMap (AList.update k0 x d) None, OpenArr [] None]"
      by simp
    moreover have "quiet_item code_filter (AList.update k0 x d)"
      using h(2,3) by (rule quiet_item_update)
    ultimately show ?thesis
      using h(3) unfolding in_item_def by blast
  next
    case (Cons g inner')
    with h have "store x k f # fs = (store x k f # inner') @ [OpenMap d None, OpenArr [] None]"
      "frame_slot (last (store x k f # inner')) = Some k0"
      by auto
    with h(2,3) show ?thesis
      unfolding in_item_def by blast
  qed
qed

lemma at_value_opened:
  assumes "at_value code_filter (f # fs) k"
    and "ready (new (case f of OpenArr xs s \<Rightarrow> None | OpenMap kvs s \<Rightarrow> k)) k'"
    and "\<And>s. frame_slot (new s) = s"
  shows "at_value code_filter
           (new (case f of OpenArr xs s \<Rightarrow> None | OpenMap kvs s \<Rightarrow> k) # f # fs) k'"
proof -
  let ?n = "new (case f of OpenArr xs s \<Rightarrow> None | OpenMap kvs s \<Rightarrow> k)"
  from assms obtain d k0 inner where
    h: "f # fs = inner @ [OpenMap d None, OpenArr [] None]" "quiet_item code_filter d"
       "k0 \<notin> set special_keys"
       "if inner = [] then k = Some k0 else frame_slot (last inner) = Some k0 \<and> ready (hd inner) k"
    by (auto simp: at_value_def)
  have "?n # f # fs = (?n # inner) @ [OpenMap d None, OpenArr [] None]"
    using h(1) by simp
  moreover have "frame_slot (last (?n # inner)) = Some k0"
    using h(1,4) assms(3) by (cases inner) auto
  ultimately show ?thesis
    using h(2,3) assms(2) unfolding at_value_def
    by (intro exI [of _ d] exI [of _ k0] exI [of _ "?n # inner"]) simp
qed

lemma gen_loop_step:
  assumes "builder_event b event v = Inr b1"
    and "maybe_skip parser b1 code_filter = Inr (parser, b1)"
    and "event \<noteq> EndMap \<or> prefix \<noteq> ''in_network.item''"
    and "event \<noteq> EndArray \<or> prefix \<noteq> ''in_network''"
  shows "gen_in_network_loop b (Inr (prefix, event, v) # parser) code_filter
       = gen_in_network_loop b1 parser code_filter"
  using assms by auto

lemma at_value_in_item: "at_value code_filter fs k \<Longrightarrow> in_item code_filter fs"
  unfolding at_value_def in_item_def by (metis (full_types))

lemma in_item_opened:
  assumes "at_value code_filter (f # fs) k" and "\<And>s. frame_slot (new s) = s"
  shows "in_item code_filter
           (new (case f of OpenArr xs s \<Rightarrow> None | OpenMap kvs s \<Rightarrow> k) # f # fs)"
proof -
  let ?n = "new (case f of OpenArr xs s \<Rightarrow> None | OpenMap kvs s \<Rightarrow> k)"
  from assms obtain d k0 inner where
    h: "f # fs = inner @ [OpenMap d None, OpenArr [] None]" "quiet_item code_filter d"
       "k0 \<notin> set special_keys"
       "if inner = [] then k = Some k0 else frame_slot (last inner) = Some k0 \<and> ready (hd inner) k"
    by (auto simp: at_value_def)
  have "?n # f # fs = (?n # inner) @ [OpenMap d None, OpenArr [] None]"
    using h(1) by simp
  moreover have "frame_slot (last (?n # inner)) = Some k0"
    using h(1,4) assms(2) by (cases inner) auto
  ultimately show ?thesis
    using h(2,3) unfolding in_item_def
    by (intro exI [of _ d] exI [of _ k0] exI [of _ "?n # inner"]) simp
qed

lemma inside_bkey [simp]: "(inside fs k)\<lparr>bkey := k'\<rparr> = inside fs k'"
  by (simp add: inside_def)

lemma update_fresh: "k \<notin> fst ` set d \<Longrightarrow> AList.update k v d = d @ [(k, v)]"
  by (induction d) auto

lemma long_prefix:
  "15 < length p \<Longrightarrow> p \<noteq> ''in_network.item'' \<and> p \<noteq> ''in_network''"
  by auto

lemma store_slot: "store v (case f of OpenArr xs s \<Rightarrow> None | OpenMap kvs s \<Rightarrow> k) f = store v k f"
  by (cases f) auto


text \<open>
  The events of a value below a key of the item that \<open>skip_item_by_code\<close> does not read:
  the loop builds the value into the frame on top, and neither skips nor yields.
\<close>

lemma gen_loop_value:
  assumes "at_value code_filter (f # fs) k" and "wf_json x" and "15 < length p"
  shows "gen_in_network_loop (inside (f # fs) k) (map Inr (events_of p x) @ rest) code_filter
       = gen_in_network_loop (inside (store x k f # fs) (final_key x k)) rest code_filter"
  using assms
proof (induction x arbitrary: f fs k p rest)
  case (Sc s)
  have "builder_event (inside (f # fs) k) (scalar_event s) s
      = Inr (inside (store (Sc s) k f # fs) k)"
    using at_value_ready [OF Sc.prems(1)] by (simp add: call_top_inside)
  moreover have "maybe_skip rest (inside (store (Sc s) k f # fs) k) code_filter
      = Inr (rest, inside (store (Sc s) k f # fs) k)"
    by (rule in_item_calm [OF at_value_stored [OF Sc.prems(1)]])
  moreover have "scalar_event s \<noteq> EndMap" "scalar_event s \<noteq> EndArray"
    by (cases s; simp)+
  ultimately show ?case
    by (simp add: gen_loop_step)
next
  case (Arr xs)
  let ?slot = "case f of OpenArr xs s \<Rightarrow> None | OpenMap kvs s \<Rightarrow> k"
  let ?q = "sub_prefix p ''item''"
  have q: "15 < length ?q"
    using Arr.prems(3) sub_prefix_length [of p "''item''"] by simp
  have av: "at_value code_filter (OpenArr ys ?slot # f # fs) k'" for ys k'
    using at_value_opened [OF Arr.prems(1), of "OpenArr ys" k'] by simp
  have elems: "gen_in_network_loop (inside (OpenArr ys ?slot # f # fs) k')
          (map Inr (concat (map (events_of ?q) xs')) @ rest') code_filter
      = gen_in_network_loop (inside (OpenArr (ys @ xs') ?slot # f # fs) (fold final_key xs' k'))
          rest' code_filter"
    if "set xs' \<subseteq> set xs" for xs' ys k' rest'
    using that
  proof (induction xs' arbitrary: ys k')
    case Nil
    then show ?case by simp
  next
    case (Cons x xs')
    have wx: "wf_json x"
      using Cons.prems Arr.prems(2) by (auto simp: list_all_iff)
    have "gen_in_network_loop (inside (OpenArr ys ?slot # f # fs) k')
          (map Inr (events_of ?q x) @ (map Inr (concat (map (events_of ?q) xs')) @ rest'))
          code_filter
      = gen_in_network_loop (inside (store x k' (OpenArr ys ?slot) # f # fs) (final_key x k'))
          (map Inr (concat (map (events_of ?q) xs')) @ rest') code_filter"
      using Cons.prems by (intro Arr.IH [OF _ av wx q]) auto
    also have "\<dots> = gen_in_network_loop
          (inside (OpenArr ((ys @ [x]) @ xs') ?slot # f # fs) (fold final_key xs' (final_key x k')))
          rest' code_filter"
      using Cons.IH [of "ys @ [x]" "final_key x k'"] Cons.prems by simp
    finally show ?case by simp
  qed
  have 1: "gen_in_network_loop (inside (f # fs) k)
          (Inr (p, StartArray, SNull) # map Inr (concat (map (events_of ?q) xs))
             @ Inr (p, EndArray, SNull) # rest) code_filter
      = gen_in_network_loop (inside (OpenArr [] ?slot # f # fs) k)
          (map Inr (concat (map (events_of ?q) xs)) @ Inr (p, EndArray, SNull) # rest) code_filter"
  proof (rule gen_loop_step)
    show "builder_event (inside (f # fs) k) StartArray SNull
        = Inr (inside (OpenArr [] ?slot # f # fs) k)"
      using at_value_ready [OF Arr.prems(1)] by (simp add: open_container_inside)
    show "maybe_skip (map Inr (concat (map (events_of ?q) xs)) @ Inr (p, EndArray, SNull) # rest)
          (inside (OpenArr [] ?slot # f # fs) k) code_filter
        = Inr (map Inr (concat (map (events_of ?q) xs)) @ Inr (p, EndArray, SNull) # rest,
               inside (OpenArr [] ?slot # f # fs) k)"
      by (rule in_item_calm [OF at_value_in_item [OF av]])
  qed simp_all
  have 3: "gen_in_network_loop (inside (OpenArr xs ?slot # f # fs) (fold final_key xs k))
          (Inr (p, EndArray, SNull) # rest) code_filter
      = gen_in_network_loop (inside (store (Arr xs) k f # fs) (fold final_key xs k)) rest
          code_filter"
  proof (rule gen_loop_step)
    show "builder_event (inside (OpenArr xs ?slot # f # fs) (fold final_key xs k)) EndArray SNull
        = Inr (inside (store (Arr xs) k f # fs) (fold final_key xs k))"
      by (simp add: pop_container_inside store_slot)
    show "maybe_skip rest (inside (store (Arr xs) k f # fs) (fold final_key xs k)) code_filter
        = Inr (rest, inside (store (Arr xs) k f # fs) (fold final_key xs k))"
      by (rule in_item_calm [OF at_value_stored [OF Arr.prems(1)]])
    show "EndArray \<noteq> EndArray \<or> p \<noteq> ''in_network''"
      using long_prefix [OF Arr.prems(3)] by simp
  qed simp
  show ?case
    using 1 elems [of xs "[]" k "Inr (p, EndArray, SNull) # rest"] 3 by simp
next
  case (Obj kvs)
  let ?slot = "case f of OpenArr xs s \<Rightarrow> None | OpenMap kvs s \<Rightarrow> k"
  let ?member = "\<lambda>(k1, x). (p, MapKey, SStr k1) # events_of (sub_prefix p k1) x"
  let ?key = "\<lambda>kv k'. final_key (snd kv) (Some (fst kv))"
  have av: "at_value code_filter (OpenMap d ?slot # f # fs) (Some k1)" for d k1
    using at_value_opened [OF Obj.prems(1), of "OpenMap d" "Some k1"] by simp
  have ii: "in_item code_filter (OpenMap d ?slot # f # fs)" for d
    by (rule at_value_in_item [OF av [of d undefined]])
  have members: "gen_in_network_loop (inside (OpenMap d ?slot # f # fs) k')
          (map Inr (concat (map ?member kvs')) @ rest') code_filter
      = gen_in_network_loop (inside (OpenMap (d @ kvs') ?slot # f # fs) (fold ?key kvs' k'))
          rest' code_filter"
    if "set kvs' \<subseteq> set kvs" "distinct (map fst (d @ kvs'))" for kvs' d k' rest'
    using that
  proof (induction kvs' arbitrary: d k')
    case Nil
    then show ?case by simp
  next
    case (Cons kv kvs')
    obtain k1 x where kv: "kv = (k1, x)"
      by (cases kv) auto
    have wx: "wf_json x"
      using Cons.prems(1) Obj.prems(2) kv by (auto simp: list_all_iff)
    have q: "15 < length (sub_prefix p k1)"
      using Obj.prems(3) sub_prefix_length [of p k1] by simp
    have fresh: "k1 \<notin> fst ` set d"
      using Cons.prems(2) kv by auto
    have "gen_in_network_loop (inside (OpenMap d ?slot # f # fs) k')
          (Inr (p, MapKey, SStr k1) # map Inr (events_of (sub_prefix p k1) x)
             @ (map Inr (concat (map ?member kvs')) @ rest')) code_filter
      = gen_in_network_loop (inside (OpenMap d ?slot # f # fs) (Some k1))
          (map Inr (events_of (sub_prefix p k1) x)
             @ (map Inr (concat (map ?member kvs')) @ rest')) code_filter"
      by (rule gen_loop_step) (simp_all add: map_key_inside in_item_calm [OF ii])
    also have "\<dots> = gen_in_network_loop
          (inside (store x (Some k1) (OpenMap d ?slot) # f # fs) (final_key x (Some k1)))
          (map Inr (concat (map ?member kvs')) @ rest') code_filter"
      using Cons.prems(1) kv by (intro Obj.IH [OF _ _ av wx q]) auto
    also have "\<dots> = gen_in_network_loop
          (inside (OpenMap (d @ [(k1, x)]) ?slot # f # fs) (final_key x (Some k1)))
          (map Inr (concat (map ?member kvs')) @ rest') code_filter"
      using fresh by (simp add: update_fresh)
    also have "\<dots> = gen_in_network_loop
          (inside (OpenMap ((d @ [(k1, x)]) @ kvs') ?slot # f # fs)
             (fold ?key kvs' (final_key x (Some k1))))
          rest' code_filter"
      using Cons.prems kv by (intro Cons.IH) auto
    finally show ?case
      using kv by simp
  qed
  have 1: "gen_in_network_loop (inside (f # fs) k)
          (Inr (p, StartMap, SNull) # map Inr (concat (map ?member kvs))
             @ Inr (p, EndMap, SNull) # rest) code_filter
      = gen_in_network_loop (inside (OpenMap [] ?slot # f # fs) k)
          (map Inr (concat (map ?member kvs)) @ Inr (p, EndMap, SNull) # rest) code_filter"
  proof (rule gen_loop_step)
    show "builder_event (inside (f # fs) k) StartMap SNull
        = Inr (inside (OpenMap [] ?slot # f # fs) k)"
      using at_value_ready [OF Obj.prems(1)] by (simp add: open_container_inside)
    show "maybe_skip (map Inr (concat (map ?member kvs)) @ Inr (p, EndMap, SNull) # rest)
          (inside (OpenMap [] ?slot # f # fs) k) code_filter
        = Inr (map Inr (concat (map ?member kvs)) @ Inr (p, EndMap, SNull) # rest,
               inside (OpenMap [] ?slot # f # fs) k)"
      by (rule in_item_calm [OF ii])
  qed simp_all
  have 3: "gen_in_network_loop (inside (OpenMap kvs ?slot # f # fs) (fold ?key kvs k))
          (Inr (p, EndMap, SNull) # rest) code_filter
      = gen_in_network_loop (inside (store (Obj kvs) k f # fs) (fold ?key kvs k)) rest
          code_filter"
  proof (rule gen_loop_step)
    show "builder_event (inside (OpenMap kvs ?slot # f # fs) (fold ?key kvs k)) EndMap SNull
        = Inr (inside (store (Obj kvs) k f # fs) (fold ?key kvs k))"
      by (simp add: pop_container_inside store_slot)
    show "maybe_skip rest (inside (store (Obj kvs) k f # fs) (fold ?key kvs k)) code_filter
        = Inr (rest, inside (store (Obj kvs) k f # fs) (fold ?key kvs k))"
      by (rule in_item_calm [OF at_value_stored [OF Obj.prems(1)]])
    show "EndMap \<noteq> EndMap \<or> p \<noteq> ''in_network.item''"
      using long_prefix [OF Obj.prems(3)] by simp
  qed simp
  have d: "distinct (map fst ([] @ kvs))"
    using Obj.prems(2) by simp
  show ?case
    using 1 members [of kvs "[]" k "Inr (p, EndMap, SNull) # rest", OF _ d] 3 by simp
qed

lemma dict_get_append:
  "truthy (dict_get d1 k) \<Longrightarrow> dict_get (d1 @ d2) k = dict_get d1 k"
  by (cases "map_of d1 k") (auto simp: dict_get_def map_add_def split: option.splits)

lemma early_skipped_mono:
  "early_skipped code_filter d1 \<Longrightarrow> early_skipped code_filter (d1 @ d2)"
  by (auto simp: early_skipped_def dict_get_append)

lemma early_skipped_Nil [simp]: "\<not> early_skipped code_filter []"
  by (simp add: early_skipped_def dict_get_def)

lemma member_events_not_end:
  assumes "(q, e, v) \<in> set (concat (map (\<lambda>(k1, x). (''in_network.item'', MapKey, SStr k1)
              # events_of (sub_prefix ''in_network.item'' k1) x) d))"
  shows "q \<noteq> ''in_network.item'' \<or> e \<noteq> EndMap"
proof -
  from assms consider "e = MapKey"
    | k1 x where "(q, e, v) \<in> set (events_of (sub_prefix ''in_network.item'' k1) x)"
    by auto
  then show ?thesis
  proof cases
    case 1
    then show ?thesis by simp
  next
    case 2
    from events_of_prefix_length [OF 2]
      sub_prefix_longer [of "''in_network.item''" k1]
    have "15 < length q" by simp
    then show ?thesis by auto
  qed
qed

lemma in_item_top:
  "quiet_item code_filter d \<Longrightarrow> in_item code_filter [OpenMap d None, OpenArr [] None]"
  unfolding in_item_def
  by (intro exI [of _ d] exI [of _ "[]"] exI [of _ "[]"]) (simp add: special_keys_def)


text \<open>
  The members of an item, from the builder that holds the members \<open>d1\<close> read so far, at
  none of which the item was skipped: the item is yielded at its \<^verbatim>\<open>end_map\<close>, unless a
  member makes \<open>skip_item_by_code\<close> skip it, and the builder is back between two items.
\<close>

lemma gen_loop_members:
  assumes "distinct (map fst (d1 @ d2))"
    and "list_all (\<lambda>kv. wf_json (snd kv)) d2"
    and "list_all (\<lambda>kv. fst kv \<in> set special_keys \<longrightarrow> is_scalar (snd kv)) (d1 @ d2)"
    and "\<not> early_skipped code_filter d1"
  shows "\<exists>k'. gen_in_network_loop (inside [OpenMap d1 None, OpenArr [] None] k)
            (map Inr (concat (map (\<lambda>(k1, x). (''in_network.item'', MapKey, SStr k1)
                # events_of (sub_prefix ''in_network.item'' k1) x) d2))
               @ Inr (''in_network.item'', EndMap, SNull) # rest) code_filter
       = (if early_skipped code_filter (d1 @ d2) then [] else [Inr (Obj (d1 @ d2))])
           @ gen_in_network_loop (inside [OpenArr [] None] k') rest code_filter"
  using assms
proof (induction d2 arbitrary: d1 k)
  case Nil
  let ?b = "inside [OpenArr [Obj d1] None] k"
  have e: "builder_event (inside [OpenMap d1 None, OpenArr [] None] k) EndMap SNull = Inr ?b"
    by (simp add: pop_container_inside)
  have "builder_value ?b = Some (Arr [Obj d1])"
    by (simp add: builder_value_def inside_def)
  from skip_item_by_code_decision [OF this, of d1 rest code_filter] Nil.prems
  have m: "maybe_skip rest ?b code_filter = Inr (rest, ?b)"
    by simp
  have v: "value_pop ?b = Inr (Obj d1, inside [OpenArr [] None] k)"
    by (simp add: value_pop_def inside_def)
  show ?case
    using Nil.prems(4) by (intro exI [of _ k]) (simp add: pop_container_inside m v)
next
  case (Cons kv d2)
  obtain k1 x where kv: "kv = (k1, x)"
    by (cases kv) auto
  let ?I = "''in_network.item''"
  let ?member = "\<lambda>(k1, x). (?I, MapKey, SStr k1) # events_of (sub_prefix ?I k1) x"
  let ?tail = "map Inr (concat (map ?member d2)) @ Inr (?I, EndMap, SNull) # rest"
  let ?d = "d1 @ [(k1, x)]"
  have sc1: "list_all (\<lambda>kv. fst kv \<in> set special_keys \<longrightarrow> is_scalar (snd kv)) d1"
    and scd: "list_all (\<lambda>kv. fst kv \<in> set special_keys \<longrightarrow> is_scalar (snd kv)) ?d"
    using Cons.prems(3) kv by simp_all
  have q1: "quiet_item code_filter d1"
    using Cons.prems(4) sc1 by (simp add: quiet_item_def)
  have fresh: "k1 \<notin> fst ` set d1"
    using Cons.prems(1) kv by auto
  have p: "15 < length (sub_prefix ?I k1)"
    using sub_prefix_longer [of ?I k1] by simp
  have key: "gen_in_network_loop (inside [OpenMap d1 None, OpenArr [] None] k)
          (Inr (?I, MapKey, SStr k1) # map Inr (events_of (sub_prefix ?I k1) x) @ ?tail)
          code_filter
      = gen_in_network_loop (inside [OpenMap d1 None, OpenArr [] None] (Some k1))
          (map Inr (events_of (sub_prefix ?I k1) x) @ ?tail) code_filter"
    by (rule gen_loop_step) (simp_all add: in_item_calm [OF in_item_top [OF q1]])
  have IH: "\<exists>k'. gen_in_network_loop (inside [OpenMap ?d None, OpenArr [] None] k'') ?tail
            code_filter
       = (if early_skipped code_filter (?d @ d2) then [] else [Inr (Obj (?d @ d2))])
           @ gen_in_network_loop (inside [OpenArr [] None] k') rest code_filter"
    if "\<not> early_skipped code_filter ?d" for k''
    using Cons.prems that kv by (intro Cons.IH) auto
  show ?case
  proof (cases "k1 \<in> set special_keys")
    case False
    have "at_value code_filter [OpenMap d1 None, OpenArr [] None] (Some k1)"
      unfolding at_value_def using q1 False
      by (intro exI [of _ d1] exI [of _ k1] exI [of _ "[]"]) simp
    moreover have "wf_json x"
      using Cons.prems(2) kv by simp
    ultimately have "gen_in_network_loop (inside [OpenMap d1 None, OpenArr [] None] (Some k1))
          (map Inr (events_of (sub_prefix ?I k1) x) @ ?tail) code_filter
      = gen_in_network_loop
          (inside [store x (Some k1) (OpenMap d1 None), OpenArr [] None] (final_key x (Some k1)))
          ?tail code_filter"
      using p by (rule gen_loop_value)
    then have v: "gen_in_network_loop (inside [OpenMap d1 None, OpenArr [] None] (Some k1))
          (map Inr (events_of (sub_prefix ?I k1) x) @ ?tail) code_filter
      = gen_in_network_loop (inside [OpenMap ?d None, OpenArr [] None] (final_key x (Some k1)))
          ?tail code_filter"
      using fresh by (simp add: update_fresh)
    have "\<not> early_skipped code_filter ?d"
      using early_skipped_update [OF False, of code_filter x d1] Cons.prems(4) fresh
      by (simp add: update_fresh)
    from IH [OF this, of "final_key x (Some k1)"] obtain k'
      where "gen_in_network_loop
          (inside [OpenMap ?d None, OpenArr [] None] (final_key x (Some k1))) ?tail code_filter
        = (if early_skipped code_filter (?d @ d2) then [] else [Inr (Obj (?d @ d2))])
            @ gen_in_network_loop (inside [OpenArr [] None] k') rest code_filter" ..
    with key v kv show ?thesis
      by (intro exI [of _ k']) (simp del: gen_in_network_loop.simps)
  next
    case True
    with scd obtain s where s: "x = Sc s"
      by (cases x) auto
    let ?b = "inside [OpenMap ?d None, OpenArr [] None] (Some k1)"
    have e: "builder_event (inside [OpenMap d1 None, OpenArr [] None] (Some k1))
        (scalar_event s) s = Inr ?b"
      using fresh s by (simp add: call_top_inside update_fresh)
    have "builder_value ?b = Some (Arr [Obj ?d])"
      by (simp add: inside_def builder_value_item)
    from skip_item_by_code_decision [OF this, of ?d ?tail code_filter] scd
    have m: "maybe_skip ?tail ?b code_filter
        = (if early_skipped code_filter ?d then skip_item ?tail ?b else Inr (?tail, ?b))"
      by simp
    have ne: "scalar_event s \<noteq> EndMap" "scalar_event s \<noteq> EndArray"
      by (cases s; simp)+
    show ?thesis
    proof (cases "early_skipped code_filter ?d")
      case False
      with m have "maybe_skip ?tail ?b code_filter = Inr (?tail, ?b)"
        by simp
      with e ne have "gen_in_network_loop (inside [OpenMap d1 None, OpenArr [] None] (Some k1))
          (Inr (sub_prefix ?I k1, scalar_event s, s) # ?tail) code_filter
        = gen_in_network_loop ?b ?tail code_filter"
        by (intro gen_loop_step) simp_all
      then have step: "gen_in_network_loop (inside [OpenMap d1 None, OpenArr [] None] (Some k1))
          (map Inr (events_of (sub_prefix ?I k1) x) @ ?tail) code_filter
        = gen_in_network_loop ?b ?tail code_filter"
        using s by simp
      from IH [OF False, of "Some k1"] obtain k'
        where "gen_in_network_loop ?b ?tail code_filter
          = (if early_skipped code_filter (?d @ d2) then [] else [Inr (Obj (?d @ d2))])
              @ gen_in_network_loop (inside [OpenArr [] None] k') rest code_filter" ..
      with key step kv show ?thesis
        by (intro exI [of _ k']) (simp del: gen_in_network_loop.simps)
    next
      case skipped: True
      have "\<forall>(q, e, v) \<in> set (concat (map ?member d2)). q \<noteq> ?I \<or> e \<noteq> EndMap"
        using member_events_not_end by blast
      from skip_item_top [OF this, of rest ?d "Some k1"]
      have "skip_item ?tail ?b = Inr (rest, inside [OpenArr [] None] (Some k1))"
        by (simp add: inside_def)
      with m skipped have "maybe_skip ?tail ?b code_filter
          = Inr (rest, inside [OpenArr [] None] (Some k1))"
        by simp
      with e ne have "gen_in_network_loop (inside [OpenMap d1 None, OpenArr [] None] (Some k1))
          (Inr (sub_prefix ?I k1, scalar_event s, s) # ?tail) code_filter
        = gen_in_network_loop (inside [OpenArr [] None] (Some k1)) rest code_filter"
        by auto
      moreover have "early_skipped code_filter (?d @ d2)"
        using skipped by (rule early_skipped_mono)
      ultimately show ?thesis
        using key kv s
        by (intro exI [of _ "Some k1"]) (simp del: gen_in_network_loop.simps)
    qed
  qed
qed

lemma quiet_item_Nil [simp]: "quiet_item code_filter []"
  by (simp add: quiet_item_def)

lemma item_events:
  "events_of ''in_network.item'' (Obj d)
     = (''in_network.item'', StartMap, SNull)
         # concat (map (\<lambda>(k1, x). (''in_network.item'', MapKey, SStr k1)
                # events_of (sub_prefix ''in_network.item'' k1) x) d)
         @ [(''in_network.item'', EndMap, SNull)]"
  by simp

text \<open>
  The items of the array, from the builder that is between two items: the items at which
  \<open>skip_item_by_code\<close> does not skip are yielded, in their order, and the generator
  returns at the end of the array.
\<close>

lemma gen_loop_items:
  assumes "list_all mrf_item its"
  shows "gen_in_network_loop (inside [OpenArr [] None] k)
           (map Inr (concat (map (events_of ''in_network.item'') its))
              @ Inr (''in_network'', EndArray, SNull) # rest) code_filter
       = map Inr (filter (\<lambda>it. \<not> item_skipped code_filter it) its)"
  using assms
proof (induction its arbitrary: k)
  case Nil
  show ?case
    by (simp add: pop_container_def inside_def maybe_skip_def builder_value_def)
next
  case (Cons it its)
  then obtain d where it: "it = Obj d"
    by (cases it) auto
  let ?I = "''in_network.item''"
  let ?member = "\<lambda>(k1, x). (?I, MapKey, SStr k1) # events_of (sub_prefix ?I k1) x"
  let ?rest = "map Inr (concat (map (events_of ?I) its)) @ Inr (''in_network'', EndArray, SNull) # rest"
  let ?tail = "map Inr (concat (map ?member d)) @ Inr (?I, EndMap, SNull) # ?rest"
  have d: "distinct (map fst ([] @ d))" "list_all (\<lambda>kv. wf_json (snd kv)) d"
      "list_all (\<lambda>kv. fst kv \<in> set special_keys \<longrightarrow> is_scalar (snd kv)) ([] @ d)"
    using Cons.prems it by simp_all
  have o: "builder_event (inside [OpenArr [] None] k) StartMap SNull
      = Inr (inside [OpenMap [] None, OpenArr [] None] k)"
    by (simp add: open_container_inside)
  have "gen_in_network_loop (inside [OpenArr [] None] k) (Inr (?I, StartMap, SNull) # ?tail)
          code_filter
      = gen_in_network_loop (inside [OpenMap [] None, OpenArr [] None] k) ?tail code_filter"
    using o by (rule gen_loop_step) (simp_all add: in_item_calm [OF in_item_top])
  moreover from gen_loop_members [OF d early_skipped_Nil, where k = k and rest = ?rest and code_filter = code_filter] obtain k'
    where "gen_in_network_loop (inside [OpenMap [] None, OpenArr [] None] k) ?tail code_filter
        = (if early_skipped code_filter ([] @ d) then [] else [Inr (Obj ([] @ d))])
            @ gen_in_network_loop (inside [OpenArr [] None] k') ?rest code_filter" ..
  moreover have "gen_in_network_loop (inside [OpenArr [] None] k') ?rest code_filter
      = map Inr (filter (\<lambda>it. \<not> item_skipped code_filter it) its)"
    using Cons.prems by (intro Cons.IH) simp
  ultimately show ?case
    using it by (simp del: gen_in_network_loop.simps events_of.simps add: item_events)
qed

text \<open>
  C4 (as amended). Given the events of an \<^verbatim>\<open>in_network\<close> array whose items are objects
  with distinct keys in which \<^verbatim>\<open>billing_code_type\<close>, \<^verbatim>\<open>billing_code\<close> and
  \<^verbatim>\<open>negotiation_arrangement\<close> are scalars where present, \<open>gen_in_network_items\<close> terminates
  at the end of the array, whatever follows it, and yields, complete and in their order,
  exactly the items that are not skipped. An item is skipped exactly when (a) the code
  filter is not empty, \<^verbatim>\<open>billing_code\<close> and \<^verbatim>\<open>billing_code_type\<close> are both present and
  true (not empty, not zero) and the pair \<^verbatim>\<open>(billing_code_type, str(billing_code))\<close> is
  not in the filter, or (b) \<^verbatim>\<open>negotiation_arrangement\<close> is present, true and not
  \<^verbatim>\<open>'ffs'\<close>.
\<close>

theorem gen_in_network_items_filter:
  assumes "list_all mrf_item its"
  shows "gen_in_network_items (map Inr (events_of ''in_network'' (Arr its)) @ rest) code_filter
       = map Inr (filter (\<lambda>it. \<not> item_skipped code_filter it) its)"
proof -
  have "builder_event ObjectBuilder StartArray SNull = Inr (inside [OpenArr [] None] None)"
    by (simp add: ObjectBuilder_def open_container_def inside_def)
  moreover have "maybe_skip parser (inside [OpenArr [] None] None) code_filter
      = Inr (parser, inside [OpenArr [] None] None)" for parser
    by (simp add: maybe_skip_def builder_value_def inside_def)
  ultimately have "gen_in_network_loop ObjectBuilder
        (Inr (''in_network'', StartArray, SNull)
          # map Inr (concat (map (events_of ''in_network.item'') its))
          @ Inr (''in_network'', EndArray, SNull) # rest) code_filter
      = gen_in_network_loop (inside [OpenArr [] None] None)
          (map Inr (concat (map (events_of ''in_network.item'') its))
            @ Inr (''in_network'', EndArray, SNull) # rest) code_filter"
    by (intro gen_loop_step) simp_all
  then show ?thesis
    using assms
    by (simp add: gen_in_network_items_def sub_prefix_def gen_loop_items
             del: gen_in_network_loop.simps)
qed

theorem gen_in_network_items_filter_witness:
  "list_all mrf_item [Obj [(''billing_code_type'', Sc (SStr ''CPT'')),
                     (''billing_code'', Sc (SStr ''99213'')),
                     (''negotiation_arrangement'', Sc (SStr ''ffs'')),
                     (''negotiated_rates'', Arr [Obj [(''provider_references'', Arr [Sc (SInt 1)])]])],
                Obj [(''billing_code_type'', Sc (SStr ''CPT'')),
                     (''billing_code'', Sc (SStr ''99214'')),
                     (''negotiation_arrangement'', Sc (SStr ''ffs'')),
                     (''negotiated_rates'', Arr [])],
                Obj [(''negotiation_arrangement'', Sc (SStr ''bundle'')),
                     (''billing_code_type'', Sc (SStr ''CPT'')),
                     (''billing_code'', Sc (SStr ''99213''))]]
   \<and> gen_in_network_items
       (map Inr (events_of ''in_network''
          (Arr [Obj [(''billing_code_type'', Sc (SStr ''CPT'')),
                     (''billing_code'', Sc (SStr ''99213'')),
                     (''negotiation_arrangement'', Sc (SStr ''ffs'')),
                     (''negotiated_rates'', Arr [Obj [(''provider_references'', Arr [Sc (SInt 1)])]])],
                Obj [(''billing_code_type'', Sc (SStr ''CPT'')),
                     (''billing_code'', Sc (SStr ''99214'')),
                     (''negotiation_arrangement'', Sc (SStr ''ffs'')),
                     (''negotiated_rates'', Arr [])],
                Obj [(''negotiation_arrangement'', Sc (SStr ''bundle'')),
                     (''billing_code_type'', Sc (SStr ''CPT'')),
                     (''billing_code'', Sc (SStr ''99213''))]]))
        @ [Inr ('''', EndMap, SNull)])
       {(''CPT'', ''99213'')}
     = [Inr (Obj [(''billing_code_type'', Sc (SStr ''CPT'')),
                  (''billing_code'', Sc (SStr ''99213'')),
                  (''negotiation_arrangement'', Sc (SStr ''ffs'')),
                  (''negotiated_rates'', Arr [Obj [(''provider_references'', Arr [Sc (SInt 1)])]])])]"
  using gen_in_network_items_filter [of
      "[Obj [(''billing_code_type'', Sc (SStr ''CPT'')),
             (''billing_code'', Sc (SStr ''99213'')),
             (''negotiation_arrangement'', Sc (SStr ''ffs'')),
             (''negotiated_rates'', Arr [Obj [(''provider_references'', Arr [Sc (SInt 1)])]])],
        Obj [(''billing_code_type'', Sc (SStr ''CPT'')),
             (''billing_code'', Sc (SStr ''99214'')),
             (''negotiation_arrangement'', Sc (SStr ''ffs'')),
             (''negotiated_rates'', Arr [])],
        Obj [(''negotiation_arrangement'', Sc (SStr ''bundle'')),
             (''billing_code_type'', Sc (SStr ''CPT'')),
             (''billing_code'', Sc (SStr ''99213''))]]"
      "[Inr ('''', EndMap, SNull)]" "{(''CPT'', ''99213'')}"]
  by (simp add: special_keys_def early_skipped_def dict_get_def not_in_filter_def
           del: events_of.simps)

text \<open>
  C4 (as stated). With the code filter \<^verbatim>\<open>{('CPT', '99213')}\<close>, the item whose
  \<^verbatim>\<open>billing_code\<close> is the empty string has a pair that is not in the filter, so the
  specification has it skipped; \<open>gen_in_network_items\<close> yields it.
\<close>

theorem gen_in_network_items_empty_code_counterexample:
  "spec_item_skipped {(''CPT'', ''99213'')}
      [(''billing_code_type'', Sc (SStr ''CPT'')), (''billing_code'', Sc (SStr '''')),
       (''negotiation_arrangement'', Sc (SStr ''ffs''))]
   \<and> gen_in_network_items
       (map Inr (events_of ''in_network''
          (Arr [Obj [(''billing_code_type'', Sc (SStr ''CPT'')), (''billing_code'', Sc (SStr '''')),
                     (''negotiation_arrangement'', Sc (SStr ''ffs''))]])))
       {(''CPT'', ''99213'')}
     = [Inr (Obj [(''billing_code_type'', Sc (SStr ''CPT'')), (''billing_code'', Sc (SStr '''')),
                  (''negotiation_arrangement'', Sc (SStr ''ffs''))])]"
  by (simp add: spec_item_skipped_def gen_in_network_items_def ObjectBuilder_def sub_prefix_def
        open_container_def pop_container_def call_top_def maybe_skip_def builder_value_def
        skip_item_by_code_def skip_item_def value_pop_def
        dict_get_def not_in_filter_def)

lemma write_table_lines:
  assumes "write_table rows t s = (e, s')"
  shows "\<exists>ls. written s' = written s @ ls \<and> list_all (\<lambda>tl. fst tl = t) ls"
proof -
  obtain rs where "write_table (RowList rs) t s = (e, s')"
    using assms by (cases rows) (auto simp: write_table_RowDict)
  from write_table_written [OF this] obtain hdr k where
    h: "hdr = [] \<or> hdr = [(t, Header (SCHEMA t))]"
       "written s' = written s @ hdr @ map (\<lambda>row. (t, row_line t row)) (take k rs)"
    by blast
  show ?thesis
    using h by (intro exI [of _ "hdr @ map (\<lambda>row. (t, row_line t row)) (take k rs)"])
      (auto simp: list_all_iff)
qed

lemma write_table_one_row:
  assumes "write_table (RowDict row) t s = (None, s')"
  shows "\<exists>ls. written s' = written s @ ls \<and> list_all (\<lambda>tl. fst tl = t) ls
           \<and> map fst (filter is_row ls) = [t]"
proof -
  have "write_table (RowList [row]) t s = (None, s')"
    using assms by (simp add: write_table_RowDict)
  from write_table_written [OF this] obtain hdr k where
    h: "hdr = [] \<or> hdr = [(t, Header (SCHEMA t))]" "k = 1"
       "written s' = written s @ hdr @ map (\<lambda>row. (t, row_line t row)) (take k [row])"
    by auto
  show ?thesis
    using h by (intro exI [of _ "hdr @ [(t, row_line t row)]"]) (auto simp: row_line_def)
qed

text \<open>
  The lines a function appends to the files of the output directory are of tables
  that satisfy \<open>P\<close>.
\<close>

lemma appends_trans:
  assumes "\<exists>ls. written s1 = written s @ ls \<and> list_all P ls"
    and "\<exists>ls. written s2 = written s1 @ ls \<and> list_all P ls"
  shows "\<exists>ls. written s2 = written s @ ls \<and> list_all P ls"
proof -
  from assms obtain l1 l2 where "written s1 = written s @ l1" "list_all P l1"
      "written s2 = written s1 @ l2" "list_all P l2"
    by blast
  then show ?thesis
    by (intro exI [of _ "l1 @ l2"]) simp
qed

lemma appends_refl: "\<exists>ls. written s = written s @ ls \<and> list_all P ls"
  by (intro exI [of _ "[]"]) simp

lemma write_table_item_lines:
  assumes "write_table rows t s = (e, s')" and "\<not> plan_table t"
  shows "\<exists>ls. written s' = written s @ ls \<and> list_all (\<lambda>tl. \<not> plan_table (fst tl)) ls"
proof -
  from write_table_lines [OF assms(1)] obtain ls where
    "written s' = written s @ ls" "list_all (\<lambda>tl. fst tl = t) ls"
    by blast
  then show ?thesis
    using assms(2) by (intro exI [of _ ls]) (auto simp: list_all_iff)
qed

lemma write_rate_lines:
  assumes "write_rate rate code_hash filename_hash s = (e, s')"
  shows "\<exists>ls. written s' = written s @ ls \<and> list_all (\<lambda>tl. \<not> plan_table (fst tl)) ls"
proof -
  note t = appends_trans [where P = "\<lambda>tl. \<not> plan_table (fst tl)"]
  have p: "\<exists>ls. written s1 = written s0 @ ls \<and> list_all (\<lambda>tl. \<not> plan_table (fst tl)) ls"
    if "write_table rows Prices s0 = (e1, s1)" for rows s0 e1 s1
    using that by (rule write_table_item_lines) (simp add: plan_table_def)
  have g: "\<exists>ls. written s1 = written s0 @ ls \<and> list_all (\<lambda>tl. \<not> plan_table (fst tl)) ls"
    if "write_table rows ProviderGroups s0 = (e1, s1)" for rows s0 e1 s1
    using that by (rule write_table_item_lines) (simp add: plan_table_def)
  have l: "\<exists>ls. written s1 = written s0 @ ls \<and> list_all (\<lambda>tl. \<not> plan_table (fst tl)) ls"
    if "write_table rows PricesProviderGroups s0 = (e1, s1)" for rows s0 e1 s1
    using that by (rule write_table_item_lines) (simp add: plan_table_def)
  from assms show ?thesis
    unfolding write_rate_def
    by (auto split: sum.splits prod.splits option.splits
             intro: appends_refl p t [OF p g] t [OF t [OF p g] l])
qed

lemma write_rates_lines:
  "write_rates rates code_hash filename_hash s = (e, s') \<Longrightarrow>
     \<exists>ls. written s' = written s @ ls \<and> list_all (\<lambda>tl. \<not> plan_table (fst tl)) ls"
proof (induction rates arbitrary: s)
  case Nil
  then show ?case by (simp add: appends_refl)
next
  case (Cons rate rates)
  obtain e1 s1 where w: "write_rate rate code_hash filename_hash s = (e1, s1)"
    by (cases "write_rate rate code_hash filename_hash s") auto
  show ?case
  proof (cases e1)
    case None
    with Cons.prems w have "write_rates rates code_hash filename_hash s1 = (e, s')"
      by simp
    from appends_trans [OF write_rate_lines [OF w] Cons.IH [OF this]] show ?thesis .
  next
    case (Some x)
    with Cons.prems w write_rate_lines [OF w] show ?thesis
      by simp
  qed
qed

lemma write_in_network_item_lines:
  assumes "write_in_network_item item filename_hash s = (e, s')"
  shows "\<exists>ls. written s' = written s @ ls \<and> list_all (\<lambda>tl. \<not> plan_table (fst tl)) ls"
proof -
  note t = appends_trans [where P = "\<lambda>tl. \<not> plan_table (fst tl)"]
  have c: "\<exists>ls. written s1 = written s0 @ ls \<and> list_all (\<lambda>tl. \<not> plan_table (fst tl)) ls"
    if "write_table rows Codes s0 = (e1, s1)" for rows s0 e1 s1
    using that by (rule write_table_item_lines) (simp add: plan_table_def)
  from assms show ?thesis
    unfolding write_in_network_item_def
    by (auto split: sum.splits prod.splits option.splits
             intro: appends_refl c t [OF c write_rates_lines])
qed

lemma write_items_lines:
  "write_items processed_items filename_hash s = (e, s') \<Longrightarrow>
     \<exists>ls. written s' = written s @ ls \<and> list_all (\<lambda>tl. \<not> plan_table (fst tl)) ls"
proof (induction processed_items filename_hash s rule: write_items.induct)
  case (1 filename_hash s)
  then show ?case by (simp add: appends_refl)
next
  case (2 e0 processed_items filename_hash s)
  then show ?case by (simp add: appends_refl)
next
  case (3 item processed_items filename_hash s)
  obtain e1 s1 where w: "write_in_network_item item filename_hash s = (e1, s1)"
    by (cases "write_in_network_item item filename_hash s") auto
  show ?case
  proof (cases e1)
    case None
    with 3 w have "write_items processed_items filename_hash s1 = (e, s')"
      by simp
    from appends_trans [OF write_in_network_item_lines [OF w] "3.IH" [OF _ _ this]] w None
    show ?thesis by simp
  next
    case (Some x)
    with "3.prems" w write_in_network_item_lines [OF w] show ?thesis
      by simp
  qed
qed

text \<open>The loop ends without an exception only when every item was read and written.\<close>

lemma write_items_complete:
  "write_items processed_items filename_hash s = (None, s') \<Longrightarrow>
     list_all (\<lambda>x. \<exists>item. x = Inr item) processed_items"
  by (induction processed_items filename_hash s rule: write_items.induct)
     (auto split: prod.splits option.splits)

lemma write_plan_lines:
  assumes "write_plan plan filename_hash fname url s = (e, s')"
  shows "\<exists>ls. written s' = written s @ ls \<and> list_all (\<lambda>tl. plan_table (fst tl)) ls
           \<and> (e = None \<longrightarrow> map fst (filter is_row ls) = [Files, Plans, PlansFiles])"
proof -
  have any: "\<exists>ls. written s1 = written s0 @ ls \<and> list_all (\<lambda>tl. plan_table (fst tl)) ls"
    if "write_table rows t s0 = (e1, s1)" "plan_table t" for rows t s0 e1 s1
  proof -
    from write_table_lines [OF that(1)] obtain ls where
      "written s1 = written s0 @ ls" "list_all (\<lambda>tl. fst tl = t) ls"
      by blast
    then show ?thesis
      using that(2) by (intro exI [of _ ls]) (auto simp: list_all_iff)
  qed
  note t = appends_trans [where P = "\<lambda>tl. plan_table (fst tl)"]
  have pt: "plan_table Files" "plan_table Plans" "plan_table PlansFiles"
    by (simp_all add: plan_table_def)
  show ?thesis
  proof (cases e)
    case (Some x)
    have "\<exists>ls. written s' = written s @ ls \<and> list_all (\<lambda>tl. plan_table (fst tl)) ls"
      using assms unfolding write_plan_def
      by (auto split: sum.splits prod.splits option.splits
               intro: appends_refl any [OF _ pt(1)] t [OF any [OF _ pt(1)] any [OF _ pt(2)]]
                 t [OF t [OF any [OF _ pt(1)] any [OF _ pt(2)]] any [OF _ pt(3)]])
    with Some show ?thesis by auto
  next
    case None
    with assms obtain s1 s2 plan_row plan_file_row where
      w: "write_table (RowDict (file_row_from_filename fname filename_hash url)) Files s
            = (None, s1)"
         "write_table (RowDict plan_row) Plans s1 = (None, s2)"
         "write_table (RowDict plan_file_row) PlansFiles s2 = (None, s')"
      unfolding write_plan_def
      by (auto split: sum.splits prod.splits option.splits)
    from write_table_one_row [OF w(1)] obtain l1 where
      l1: "written s1 = written s @ l1" "list_all (\<lambda>tl. fst tl = Files) l1"
         "map fst (filter is_row l1) = [Files]"
      by (elim exE conjE)
    from write_table_one_row [OF w(2)] obtain l2 where
      l2: "written s2 = written s1 @ l2" "list_all (\<lambda>tl. fst tl = Plans) l2"
         "map fst (filter is_row l2) = [Plans]"
      by (elim exE conjE)
    from write_table_one_row [OF w(3)] obtain l3 where
      l3: "written s' = written s2 @ l3" "list_all (\<lambda>tl. fst tl = PlansFiles) l3"
         "map fst (filter is_row l3) = [PlansFiles]"
      by (elim exE conjE)
    show ?thesis
      using l1 l2 l3 by (intro exI [of _ "l1 @ l2 @ l3"]) (auto simp: list_all_iff plan_table_def)
  qed
qed

lemma make_dir_written: "make_dir s = (e, s') \<Longrightarrow> written s' = written s"
  by (auto simp: make_dir_def split: if_splits)

text \<open>
  C1. Whatever the input and the output directory, and whether \<open>json_mrf_to_csv\<close>
  returns or raises, the lines it appends are lines of the in-network tables
  (\<^verbatim>\<open>codes\<close>, \<^verbatim>\<open>prices\<close>, \<^verbatim>\<open>provider_groups\<close>, \<^verbatim>\<open>prices_provider_groups\<close>) followed by lines
  of the plan tables (\<^verbatim>\<open>files\<close>, \<^verbatim>\<open>plans\<close>, \<^verbatim>\<open>plans_files\<close>). A line of a plan table is
  written only when the loop over the processed items has read every item without an
  exception of the parser or of a generator, and has written each without an exception:
  the in-network lines are then all that this loop wrote. When the function returns,
  the rows of the plan tables are one row of each, in the order \<^verbatim>\<open>files\<close>, \<^verbatim>\<open>plans\<close>,
  \<^verbatim>\<open>plans_files\<close>.
\<close>

theorem json_mrf_to_csv_plan_rows_last:
  assumes "json_mrf_to_csv w url file_arg code_filter npi_filter s = (r, s')"
  shows "\<exists>ins pls.
      written s' = written s @ ins @ pls
    \<and> list_all (\<lambda>tl. \<not> plan_table (fst tl)) ins
    \<and> list_all (\<lambda>tl. plan_table (fst tl)) pls
    \<and> (pls \<noteq> [] \<longrightarrow>
         (\<exists>file filename_hash content processed_items s1 s2.
            file = (case file_arg of None \<Rightarrow> url | Some f \<Rightarrow> f)
          \<and> filename_hasher file = Inr filename_hash
          \<and> start_conn w (Content file code_filter npi_filter) = Inr content
          \<and> in_network_items w content = Inr processed_items
          \<and> list_all (\<lambda>x. \<exists>item. x = Inr item) processed_items
          \<and> make_dir s = (None, s1)
          \<and> write_items processed_items (Sc (SInt filename_hash)) s1 = (None, s2)
          \<and> written s2 = written s @ ins))
    \<and> (r = None \<longrightarrow> map fst (filter is_row pls) = [Files, Plans, PlansFiles])"
proof -
  let ?file = "case file_arg of None \<Rightarrow> url | Some f \<Rightarrow> f"
  let ?P = "\<lambda>ins pls. written s' = written s @ ins @ pls
    \<and> list_all (\<lambda>tl. \<not> plan_table (fst tl)) ins
    \<and> list_all (\<lambda>tl. plan_table (fst tl)) pls
    \<and> (pls \<noteq> [] \<longrightarrow>
         (\<exists>file filename_hash content processed_items s1 s2.
            file = ?file
          \<and> filename_hasher file = Inr filename_hash
          \<and> start_conn w (Content file code_filter npi_filter) = Inr content
          \<and> in_network_items w content = Inr processed_items
          \<and> list_all (\<lambda>x. \<exists>item. x = Inr item) processed_items
          \<and> make_dir s = (None, s1)
          \<and> write_items processed_items (Sc (SInt filename_hash)) s1 = (None, s2)
          \<and> written s2 = written s @ ins))
    \<and> (r = None \<longrightarrow> map fst (filter is_row pls) = [Files, Plans, PlansFiles])"
  have fin: ?thesis if "?P ins pls" for ins pls
    using that by - (rule exI, rule exI, assumption)
  have early: "?P [] []" if "s' = s" "r \<noteq> None"
    using that by simp
  show ?thesis
  proof (cases "filename_hasher ?file")
    case (Inl e)
    with assms have "s' = s" "r \<noteq> None"
      by (auto simp: json_mrf_to_csv_def)
    from fin [OF early [OF this]] show ?thesis .
  next
    case h: (Inr filename_hash)
    show ?thesis
    proof (cases "start_conn w (Content ?file code_filter npi_filter)")
      case (Inl e)
      with assms h have "s' = s" "r \<noteq> None"
        by (auto simp: json_mrf_to_csv_def)
      from fin [OF early [OF this]] show ?thesis .
    next
      case c: (Inr content)
      show ?thesis
      proof (cases "in_network_items w content")
        case (Inl e)
        with assms h c have "s' = s" "r \<noteq> None"
          by (auto simp: json_mrf_to_csv_def)
        from fin [OF early [OF this]] show ?thesis .
      next
        case i: (Inr processed_items)
        obtain e1 s1 where m: "make_dir s = (e1, s1)"
          by (cases "make_dir s") auto
        note ms = make_dir_written [OF m]
        show ?thesis
        proof (cases e1)
          case (Some e)
          with assms h c i m have "s' = s1" "r \<noteq> None"
            by (auto simp: json_mrf_to_csv_def)
          with ms have "?P [] []"
            by simp
          then show ?thesis by (rule fin)
        next
          case None
          obtain e2 s2 where
            l: "write_items processed_items (Sc (SInt filename_hash)) s1 = (e2, s2)"
            by (cases "write_items processed_items (Sc (SInt filename_hash)) s1") auto
          from write_items_lines [OF l] ms obtain ins where
            ins: "written s2 = written s @ ins" "list_all (\<lambda>tl. \<not> plan_table (fst tl)) ins"
            by auto
          show ?thesis
          proof (cases e2)
            case (Some e)
            with assms h c i m None l have "s' = s2" "r \<noteq> None"
              by (auto simp: json_mrf_to_csv_def)
            with ins have "?P ins []"
              by simp
            then show ?thesis by (rule fin)
          next
            case ok: None
            with assms h c i m None l
            have p: "write_plan (c_plan content) (Sc (SInt filename_hash)) ?file url s2 = (r, s')"
              by (simp add: json_mrf_to_csv_def)
            from write_plan_lines [OF p] obtain pls where
              pls: "written s' = written s2 @ pls" "list_all (\<lambda>tl. plan_table (fst tl)) pls"
                "r = None \<longrightarrow> map fst (filter is_row pls) = [Files, Plans, PlansFiles]"
              by (elim exE conjE)
            from l ok have "list_all (\<lambda>x. \<exists>item. x = Inr item) processed_items"
              by (auto dest: write_items_complete)
            with h c i m None l ok ins pls have "?P ins pls"
              by auto
            then show ?thesis by (rule fin)
          qed
        qed
      qed
    qed
  qed
qed

end
